theory Spec2Isabelle
  imports Main
begin

section \<open>Comment Cleaner: the scanners of \<^verbatim>\<open>comment_cleaner.py\<close>\<close>

text \<open>
  The module strips comments from source text of several language families.  Every
  scanner is a pure function from the text to a \<^verbatim>\<open>Result\<close> (cleaned text, number of
  comments, number of removed characters).  A text is a \<open>string\<close>; the characters the
  scanners compare against are all ASCII.

  Each \<^verbatim>\<open>while i < n\<close> loop is a recursive function over the unread suffix
  \<^verbatim>\<open>src[i:]\<close>, which carries the index \<open>i\<close> along where the source looks at it.
  \<^verbatim>\<open>out.append(c)\<close> puts \<open>c\<close> in front of what the rest of the loop emits,
  \<^verbatim>\<open>comments += 1; removed_chars += k\<close> adds to what the rest of the loop counts.
\<close>

subsection \<open>Result\<close>

record Result =
  rtext :: string
  comments_found :: nat
  comments_removed_chars :: nat

definition no_more :: Result where
  "no_more = \<lparr>rtext = [], comments_found = 0, comments_removed_chars = 0\<rparr>"

definition emit :: "string \<Rightarrow> Result \<Rightarrow> Result" where
  "emit cs r = r\<lparr>rtext := cs @ rtext r\<rparr>"

definition counted :: "nat \<Rightarrow> Result \<Rightarrow> Result" where
  "counted k r = r\<lparr>comments_found := Suc (comments_found r),
                   comments_removed_chars := k + comments_removed_chars r\<rparr>"

subsection \<open>Characters and lookahead\<close>

abbreviation LF :: char where "LF \<equiv> CHR 0x0A"
abbreviation CR :: char where "CR \<equiv> CHR 0x0D"
abbreviation BSL :: char where "BSL \<equiv> CHR 0x5C"
abbreviation SQ :: char where "SQ \<equiv> CHR 0x27"
abbreviation DQ :: char where "DQ \<equiv> CHR 0x22"
abbreviation BT :: char where "BT \<equiv> CHR 0x60"

text \<open>\<^verbatim>\<open>ch2 == c\<close> where \<^verbatim>\<open>ch2 = src[i + 1] if i + 1 < n else ""\<close>: the argument is the
  suffix after \<^verbatim>\<open>ch\<close>.\<close>

definition peek_is :: "string \<Rightarrow> char \<Rightarrow> bool" where
  "peek_is rest c = (case rest of [] \<Rightarrow> False | x # _ \<Rightarrow> x = c)"

text \<open>\<^verbatim>\<open>while j < n and src[j] not in "\n\r": j += 1\<close>: the number of characters up to, and
  without, the line terminator.\<close>

fun skip_line :: "string \<Rightarrow> nat" where
  "skip_line [] = 0"
| "skip_line (c # cs) = (if c = LF then 0 else if c = CR then 0 else Suc (skip_line cs))"

text \<open>
  The block comment scan, started at \<^verbatim>\<open>j = i + 2\<close> on the suffix after \<^verbatim>\<open>/*\<close>:
  \<^verbatim>\<open>while j < n - 1 and not (src[j] == "*" and src[j + 1] == "/"): j += 1\<close> and then
  \<^verbatim>\<open>j = j + 2 if j < n else n\<close>.  The value is \<^verbatim>\<open>j - (i + 2)\<close>.  With one character left
  the loop stops at \<^verbatim>\<open>j = n - 1\<close> and the source still adds 2.
\<close>

fun skip_block :: "string \<Rightarrow> nat" where
  "skip_block [] = 0"
| "skip_block [c] = 2"
| "skip_block (c # d # cs) =
     (if c = CHR ''*'' \<and> d = CHR ''/'' then 2 else Suc (skip_block (d # cs)))"

subsection \<open>\<^verbatim>\<open>strip_comments_c_like\<close>\<close>

datatype c_state = C_CODE | IN_STR_SGL | IN_STR_DBL | IN_TEMPLATE

text \<open>
  \<open>c_like_loop h b i st d rest\<close> is the loop at index \<open>i\<close> with \<open>rest = src[i:]\<close>,
  \<open>h = treat_hash_as_line_comment\<close>, \<open>b = support_backtick\<close>, \<open>st = state\<close> (\<open>C_CODE\<close> is
  the source's \<^verbatim>\<open>state == 0\<close>) and \<open>d = template_brace_depth\<close>.
\<close>

function c_like_loop :: "bool \<Rightarrow> bool \<Rightarrow> nat \<Rightarrow> c_state \<Rightarrow> nat \<Rightarrow> string \<Rightarrow> Result" where
  "c_like_loop h b i st d [] = no_more"
| "c_like_loop h b i IN_STR_SGL d (ch # rest) =
     (if ch = BSL then
        (if rest \<noteq> [] then emit [ch, hd rest] (c_like_loop h b (i + 2) IN_STR_SGL d (tl rest))
         else emit [ch] (c_like_loop h b (i + 1) IN_STR_SGL d rest))
      else if ch = SQ then emit [ch] (c_like_loop h b (i + 1) C_CODE d rest)
      else emit [ch] (c_like_loop h b (i + 1) IN_STR_SGL d rest))"
| "c_like_loop h b i IN_STR_DBL d (ch # rest) =
     (if ch = BSL then
        (if rest \<noteq> [] then emit [ch, hd rest] (c_like_loop h b (i + 2) IN_STR_DBL d (tl rest))
         else emit [ch] (c_like_loop h b (i + 1) IN_STR_DBL d rest))
      else if ch = DQ then emit [ch] (c_like_loop h b (i + 1) C_CODE d rest)
      else emit [ch] (c_like_loop h b (i + 1) IN_STR_DBL d rest))"
| "c_like_loop h b i IN_TEMPLATE d (ch # rest) =
     (if ch = BSL then
        (if rest \<noteq> [] then emit [ch, hd rest] (c_like_loop h b (i + 2) IN_TEMPLATE d (tl rest))
         else emit [ch] (c_like_loop h b (i + 1) IN_TEMPLATE d rest))
      else if ch = BT then emit [ch] (c_like_loop h b (i + 1) C_CODE d rest)
      else if ch = CHR ''$'' \<and> peek_is rest CHR ''{'' then
        emit [ch, CHR ''{''] (c_like_loop h b (i + 2) IN_TEMPLATE (d + 1) (tl rest))
      else if ch = CHR ''}'' \<and> 0 < d then
        emit [ch] (c_like_loop h b (i + 1) IN_TEMPLATE (d - 1) rest)
      else emit [ch] (c_like_loop h b (i + 1) IN_TEMPLATE d rest))"
| "c_like_loop h b i C_CODE d (ch # rest) =
     (if ch = SQ \<and> \<not> b then emit [ch] (c_like_loop h b (i + 1) IN_STR_SGL d rest)
      else if ch = DQ then emit [ch] (c_like_loop h b (i + 1) IN_STR_DBL d rest)
      else if b \<and> ch = BT then emit [ch] (c_like_loop h b (i + 1) IN_TEMPLATE 0 rest)
      else if ch = CHR ''/'' \<and> peek_is rest CHR ''/'' then
        counted (2 + skip_line (tl rest))
          (c_like_loop h b (i + 2 + skip_line (tl rest)) C_CODE d
             (drop (skip_line (tl rest)) (tl rest)))
      else if ch = CHR ''/'' \<and> peek_is rest CHR ''*'' then
        counted (2 + skip_block (tl rest))
          (c_like_loop h b (i + 2 + skip_block (tl rest)) C_CODE d
             (drop (skip_block (tl rest)) (tl rest)))
      else if h \<and> ch = CHR ''#'' \<and> \<not> (i = 0 \<and> peek_is rest CHR ''!'') then
        counted (1 + skip_line rest)
          (c_like_loop h b (i + 1 + skip_line rest) C_CODE d (drop (skip_line rest) rest))
      else emit [ch] (c_like_loop h b (i + 1) C_CODE d rest))"
  by pat_completeness auto
termination
  by (relation "measure (\<lambda>(h, b, i, st, d, rest). length rest)") auto

definition strip_comments_c_like :: "string \<Rightarrow> bool \<Rightarrow> bool \<Rightarrow> Result" where
  "strip_comments_c_like src treat_hash_as_line_comment support_backtick =
     c_like_loop treat_hash_as_line_comment support_backtick 0 C_CODE 0 src"

subsection \<open>\<^verbatim>\<open>strip_comments_python\<close>\<close>

datatype py_state = PY_CODE | PY_IN_SGL | PY_IN_DBL | IN_TSQ | IN_TDQ

text \<open>\<^verbatim>\<open>ch == q and ch2 == q and ch3 == q\<close> for the whole suffix \<^verbatim>\<open>src[i:]\<close>.\<close>

definition triple_at :: "char \<Rightarrow> string \<Rightarrow> bool" where
  "triple_at q xs = (take 3 xs = [q, q, q])"

text \<open>
  \<open>python_loop i st rest\<close> is the loop at index \<open>i\<close> with \<open>rest = src[i:]\<close>; the states
  \<open>PY_IN_SGL\<close> and \<open>PY_IN_DBL\<close> are the source's \<^verbatim>\<open>IN_SGL\<close> and \<^verbatim>\<open>IN_DBL\<close>, \<open>PY_CODE\<close>
  its \<^verbatim>\<open>state == 0\<close>.
\<close>

function python_loop :: "nat \<Rightarrow> py_state \<Rightarrow> string \<Rightarrow> Result" where
  "python_loop i st [] = no_more"
| "python_loop i PY_IN_SGL (ch # rest) =
     (if ch = BSL then
        (if rest \<noteq> [] then emit [ch, hd rest] (python_loop (i + 2) PY_IN_SGL (tl rest))
         else emit [ch] (python_loop (i + 1) PY_IN_SGL rest))
      else if ch = SQ then emit [ch] (python_loop (i + 1) PY_CODE rest)
      else emit [ch] (python_loop (i + 1) PY_IN_SGL rest))"
| "python_loop i PY_IN_DBL (ch # rest) =
     (if ch = BSL then
        (if rest \<noteq> [] then emit [ch, hd rest] (python_loop (i + 2) PY_IN_DBL (tl rest))
         else emit [ch] (python_loop (i + 1) PY_IN_DBL rest))
      else if ch = DQ then emit [ch] (python_loop (i + 1) PY_CODE rest)
      else emit [ch] (python_loop (i + 1) PY_IN_DBL rest))"
| "python_loop i IN_TSQ (ch # rest) =
     (if triple_at SQ (ch # rest) then
        emit [ch, SQ, SQ] (python_loop (i + 3) PY_CODE (drop 2 rest))
      else emit [ch] (python_loop (i + 1) IN_TSQ rest))"
| "python_loop i IN_TDQ (ch # rest) =
     (if triple_at DQ (ch # rest) then
        emit [ch, DQ, DQ] (python_loop (i + 3) PY_CODE (drop 2 rest))
      else emit [ch] (python_loop (i + 1) IN_TDQ rest))"
| "python_loop i PY_CODE (ch # rest) =
     (if triple_at SQ (ch # rest) then
        emit [ch, SQ, SQ] (python_loop (i + 3) IN_TSQ (drop 2 rest))
      else if triple_at DQ (ch # rest) then
        emit [ch, DQ, DQ] (python_loop (i + 3) IN_TDQ (drop 2 rest))
      else if ch = SQ then emit [ch] (python_loop (i + 1) PY_IN_SGL rest)
      else if ch = DQ then emit [ch] (python_loop (i + 1) PY_IN_DBL rest)
      else if ch = CHR ''#'' \<and> \<not> (i = 0 \<and> peek_is rest CHR ''!'') then
        counted (1 + skip_line rest)
          (python_loop (i + 1 + skip_line rest) PY_CODE (drop (skip_line rest) rest))
      else emit [ch] (python_loop (i + 1) PY_CODE rest))"
  by pat_completeness auto
termination
  by (relation "measure (\<lambda>(i, st, rest). length rest)") auto

definition strip_comments_python :: "string \<Rightarrow> Result" where
  "strip_comments_python src = python_loop 0 PY_CODE src"

subsection \<open>\<^verbatim>\<open>strip_comments_sql\<close>\<close>

datatype sql_state = SQL_CODE | SQL_IN_SGL | SQL_IN_DBL | IN_BKT

text \<open>The index is not carried: the SQL loop never looks at \<^verbatim>\<open>i\<close> itself.\<close>

function sql_loop :: "sql_state \<Rightarrow> string \<Rightarrow> Result" where
  "sql_loop st [] = no_more"
| "sql_loop SQL_IN_SGL (ch # rest) =
     (if ch = BSL then
        (if rest \<noteq> [] then emit [ch, hd rest] (sql_loop SQL_IN_SGL (tl rest))
         else emit [ch] (sql_loop SQL_IN_SGL rest))
      else if ch = SQ then emit [ch] (sql_loop SQL_CODE rest)
      else emit [ch] (sql_loop SQL_IN_SGL rest))"
| "sql_loop SQL_IN_DBL (ch # rest) =
     (if ch = BSL then
        (if rest \<noteq> [] then emit [ch, hd rest] (sql_loop SQL_IN_DBL (tl rest))
         else emit [ch] (sql_loop SQL_IN_DBL rest))
      else if ch = DQ then emit [ch] (sql_loop SQL_CODE rest)
      else emit [ch] (sql_loop SQL_IN_DBL rest))"
| "sql_loop IN_BKT (ch # rest) =
     (if ch = BT then emit [ch] (sql_loop SQL_CODE rest)
      else emit [ch] (sql_loop IN_BKT rest))"
| "sql_loop SQL_CODE (ch # rest) =
     (if ch = SQ then emit [ch] (sql_loop SQL_IN_SGL rest)
      else if ch = DQ then emit [ch] (sql_loop SQL_IN_DBL rest)
      else if ch = BT then emit [ch] (sql_loop IN_BKT rest)
      else if ch = CHR ''/'' \<and> peek_is rest CHR ''*'' then
        counted (2 + skip_block (tl rest))
          (sql_loop SQL_CODE (drop (skip_block (tl rest)) (tl rest)))
      else if ch = CHR ''-'' \<and> peek_is rest CHR ''-'' then
        counted (2 + skip_line (tl rest))
          (sql_loop SQL_CODE (drop (skip_line (tl rest)) (tl rest)))
      else emit [ch] (sql_loop SQL_CODE rest))"
  by pat_completeness auto
termination
  by (relation "measure (\<lambda>(st, rest). length rest)") auto

definition strip_comments_sql :: "string \<Rightarrow> Result" where
  "strip_comments_sql src = sql_loop SQL_CODE src"

subsection \<open>\<^verbatim>\<open>strip_comments_html\<close>\<close>

definition starts_with :: "string \<Rightarrow> string \<Rightarrow> bool" where
  "starts_with p xs = (take (length p) xs = p)"

text \<open>
  The pattern \<^verbatim>\<open><!--[\s\S]*?-->\<close>: \<^verbatim>\<open>[\s\S]\<close> is any character and \<^verbatim>\<open>*?\<close> is lazy, so
  after the opener the match ends at the first \<^verbatim>\<open>-->\<close>.  \<open>find_arrow xs\<close> is the length
  of the shortest prefix of \<open>xs\<close> that ends in \<^verbatim>\<open>-->\<close>, if there is one.
\<close>

fun find_arrow :: "string \<Rightarrow> nat option" where
  "find_arrow [] = None"
| "find_arrow (c # cs) =
     (if starts_with ''-->'' (c # cs) then Some 3 else map_option Suc (find_arrow cs))"

text \<open>
  \<^verbatim>\<open>pattern.sub(repl, src)\<close>: the matches are taken from left to right and do not overlap;
  where the pattern does not match at a position, the character is kept and the search
  goes on at the next one.  \<^verbatim>\<open>repl\<close> counts the match and its length.
\<close>

function html_sub :: "string \<Rightarrow> Result" where
  "html_sub [] = no_more"
| "html_sub (c # cs) =
     (if starts_with ''<!--'' (c # cs) then
        (case find_arrow (drop 3 cs) of
           Some k \<Rightarrow> counted (4 + k) (html_sub (drop (3 + k) cs))
         | None \<Rightarrow> emit [c] (html_sub cs))
      else emit [c] (html_sub cs))"
  by pat_completeness auto
termination
  by (relation "measure length") auto

definition strip_comments_html :: "string \<Rightarrow> Result" where
  "strip_comments_html src = html_sub src"

subsection \<open>\<^verbatim>\<open>strip_comments_ruby\<close>\<close>

text \<open>
  The block pattern is \<^verbatim>\<open>(?m)^[ \t]*=begin[\s\S]*?^[ \t]*=end[ \t]*\r?\n?\<close>.  In multiline
  mode \<^verbatim>\<open>^\<close> matches at the start of the text and right after each \<^verbatim>\<open>\n\<close>; the flag
  \<open>bol\<close> below says that the position is such a line start.  \<^verbatim>\<open>[ \t]*\<close> before a marker
  that starts with \<^verbatim>\<open>=\<close> can only take the whole run of blanks.
\<close>

definition is_blank :: "char \<Rightarrow> bool" where
  "is_blank c = (c = CHR '' '' \<or> c = CHR 0x09)"

definition line_marker_at :: "string \<Rightarrow> string \<Rightarrow> bool" where
  "line_marker_at m xs = starts_with m (dropWhile is_blank xs)"

text \<open>The length of \<^verbatim>\<open>[ \t]*=end[ \t]*\r?\n?\<close> at a position where it matches: the last three
  parts are greedy and nothing follows them.\<close>

definition end_len :: "string \<Rightarrow> nat" where
  "end_len xs =
     (let a = length (takeWhile is_blank xs);
          r1 = drop (a + 4) xs;
          b = length (takeWhile is_blank r1);
          r2 = drop b r1;
          c = (if peek_is r2 CR then 1 else 0);
          r3 = drop c r2;
          d = (if peek_is r3 LF then 1 else 0)
      in a + 4 + b + c + d)"

text \<open>The length of \<^verbatim>\<open>[\s\S]*?^[ \t]*=end[ \t]*\r?\n?\<close> from a position: the lazy star
  stops at the first line start where the closer matches.\<close>

fun find_end :: "bool \<Rightarrow> string \<Rightarrow> nat option" where
  "find_end bol [] = None"
| "find_end bol (c # cs) =
     (if bol \<and> line_marker_at ''=end'' (c # cs) then Some (end_len (c # cs))
      else map_option Suc (find_end (c = LF) cs))"

text \<open>\<^verbatim>\<open>re.sub(..., block_repl, src)\<close>; after a match the next position is a line start
  when the match ended with \<^verbatim>\<open>\n\<close>.\<close>

function ruby_blocks :: "bool \<Rightarrow> string \<Rightarrow> Result" where
  "ruby_blocks bol [] = no_more"
| "ruby_blocks bol (c # cs) =
     (if bol \<and> line_marker_at ''=begin'' (c # cs) then
        (case find_end False (drop (length (takeWhile is_blank (c # cs)) + 6) (c # cs)) of
           Some k \<Rightarrow>
             counted (length (takeWhile is_blank (c # cs)) + 6 + k)
               (ruby_blocks
                  (last (take (length (takeWhile is_blank (c # cs)) + 6 + k) (c # cs)) = LF)
                  (drop (length (takeWhile is_blank (c # cs)) + 6 + k) (c # cs)))
         | None \<Rightarrow> emit [c] (ruby_blocks (c = LF) cs))
      else emit [c] (ruby_blocks (c = LF) cs))"
  by pat_completeness auto
termination
  by (relation "measure (\<lambda>(bol, xs). length xs)") auto

datatype rb_state = RB_CODE | RB_IN_SGL | RB_IN_DBL

text \<open>The second pass, over the text \<^verbatim>\<open>out\<close> left by the block pattern; \<open>RB_IN_SGL\<close> and
  \<open>RB_IN_DBL\<close> are the source's \<^verbatim>\<open>IN_SGL\<close> and \<^verbatim>\<open>IN_DBL\<close>.\<close>

function ruby_loop :: "rb_state \<Rightarrow> string \<Rightarrow> Result" where
  "ruby_loop st [] = no_more"
| "ruby_loop RB_IN_SGL (ch # rest) =
     (if ch = BSL \<and> rest \<noteq> [] then emit [ch, hd rest] (ruby_loop RB_IN_SGL (tl rest))
      else if ch = SQ then emit [ch] (ruby_loop RB_CODE rest)
      else emit [ch] (ruby_loop RB_IN_SGL rest))"
| "ruby_loop RB_IN_DBL (ch # rest) =
     (if ch = BSL \<and> rest \<noteq> [] then emit [ch, hd rest] (ruby_loop RB_IN_DBL (tl rest))
      else if ch = DQ then emit [ch] (ruby_loop RB_CODE rest)
      else emit [ch] (ruby_loop RB_IN_DBL rest))"
| "ruby_loop RB_CODE (ch # rest) =
     (if ch = SQ then emit [ch] (ruby_loop RB_IN_SGL rest)
      else if ch = DQ then emit [ch] (ruby_loop RB_IN_DBL rest)
      else if ch = CHR ''#'' then
        counted (1 + skip_line rest) (ruby_loop RB_CODE (drop (skip_line rest) rest))
      else emit [ch] (ruby_loop RB_CODE rest))"
  by pat_completeness auto
termination
  by (relation "measure (\<lambda>(st, rest). length rest)") auto

text \<open>Both passes add to the same two counters.\<close>

definition strip_comments_ruby :: "string \<Rightarrow> Result" where
  "strip_comments_ruby src =
     (let blocks = ruby_blocks True src;
          lines = ruby_loop RB_CODE (rtext blocks)
      in \<lparr>rtext = rtext lines,
          comments_found = comments_found blocks + comments_found lines,
          comments_removed_chars = comments_removed_chars blocks + comments_removed_chars lines\<rparr>)"

subsection \<open>\<^verbatim>\<open>strip_comments_hash_and_semicolon\<close>\<close>

text \<open>
  Three library functions of Python strings are used here and in the dispatcher:
  \<^verbatim>\<open>splitlines(True)\<close>, \<^verbatim>\<open>rstrip()\<close> and \<^verbatim>\<open>lower()\<close>.  A \<open>char\<close> has eight bits, so they
  are modelled on the code points up to U+00FF: the line boundaries of \<^verbatim>\<open>splitlines\<close>
  are \<^verbatim>\<open>\n\<close>, \<^verbatim>\<open>\r\<close>, \<^verbatim>\<open>\r\n\<close>, \<^verbatim>\<open>\v\<close>, \<^verbatim>\<open>\f\<close>, \<^verbatim>\<open>\x1c\<close>, \<^verbatim>\<open>\x1d\<close>, \<^verbatim>\<open>\x1e\<close> and \<^verbatim>\<open>\x85\<close>
  (U+2028 and U+2029 are outside the model), and the white space of \<^verbatim>\<open>rstrip\<close> is
  \<^verbatim>\<open>\t\<close> to \<^verbatim>\<open>\r\<close>, \<^verbatim>\<open>\x1c\<close> to \<^verbatim>\<open>\x1f\<close>, the space, \<^verbatim>\<open>\x85\<close> and \<^verbatim>\<open>\xa0\<close>.
\<close>

definition is_linebreak :: "char \<Rightarrow> bool" where
  "is_linebreak c =
     (c = LF \<or> c = CR \<or> c = CHR 0x0B \<or> c = CHR 0x0C \<or> c = CHR 0x1C \<or> c = CHR 0x1D
      \<or> c = CHR 0x1E \<or> c = CHR 0x85)"

text \<open>\<open>splitlines_from cur xs\<close>: the lines of \<open>xs\<close>, with their line ends, where \<open>cur\<close> is
  the part of the current line already read.  No empty last line is produced.\<close>

fun splitlines_from :: "string \<Rightarrow> string \<Rightarrow> string list" where
  "splitlines_from cur [] = (if cur = [] then [] else [cur])"
| "splitlines_from cur [c] = [cur @ [c]]"
| "splitlines_from cur (c # d # cs) =
     (if c = CR \<and> d = LF then (cur @ [c, d]) # splitlines_from [] cs
      else if is_linebreak c then (cur @ [c]) # splitlines_from [] (d # cs)
      else splitlines_from (cur @ [c]) (d # cs))"

definition splitlines :: "string \<Rightarrow> string list" where
  "splitlines src = splitlines_from [] src"

definition py_isspace :: "char \<Rightarrow> bool" where
  "py_isspace c =
     (c = CHR 0x09 \<or> c = LF \<or> c = CHR 0x0B \<or> c = CHR 0x0C \<or> c = CR \<or> c = CHR 0x1C
      \<or> c = CHR 0x1D \<or> c = CHR 0x1E \<or> c = CHR 0x1F \<or> c = CHR '' '' \<or> c = CHR 0x85
      \<or> c = CHR 0xA0)"

definition rstrip :: "string \<Rightarrow> string" where
  "rstrip xs = rev (dropWhile py_isspace (rev xs))"

datatype cfg_state = CFG_CODE | CFG_IN_SGL | CFG_IN_DBL

text \<open>
  The inner loop over one line: \<open>find_cut a i st rest\<close> is the value of \<^verbatim>\<open>cut\<close> when the
  loop ends, started at index \<open>i\<close> with \<open>rest = line[i:]\<close> and \<open>a = allow_semicolon\<close>;
  \<open>None\<close> is the source's \<^verbatim>\<open>cut is None\<close>.
\<close>

function find_cut :: "bool \<Rightarrow> nat \<Rightarrow> cfg_state \<Rightarrow> string \<Rightarrow> nat option" where
  "find_cut a i st [] = None"
| "find_cut a i CFG_IN_SGL (ch # rest) =
     (if ch = BSL \<and> rest \<noteq> [] then find_cut a (i + 2) CFG_IN_SGL (tl rest)
      else if ch = SQ then find_cut a (i + 1) CFG_CODE rest
      else find_cut a (i + 1) CFG_IN_SGL rest)"
| "find_cut a i CFG_IN_DBL (ch # rest) =
     (if ch = BSL \<and> rest \<noteq> [] then find_cut a (i + 2) CFG_IN_DBL (tl rest)
      else if ch = DQ then find_cut a (i + 1) CFG_CODE rest
      else find_cut a (i + 1) CFG_IN_DBL rest)"
| "find_cut a i CFG_CODE (ch # rest) =
     (if ch = SQ then find_cut a (i + 1) CFG_IN_SGL rest
      else if ch = DQ then find_cut a (i + 1) CFG_IN_DBL rest
      else if ch = CHR ''#'' then Some i
      else if a \<and> ch = CHR '';'' then Some i
      else find_cut a (i + 1) CFG_CODE rest)"
  by pat_completeness auto
termination
  by (relation "measure (\<lambda>(a, i, st, rest). length rest)") auto

text \<open>\<^verbatim>\<open>line.endswith("\n")\<close>.\<close>

definition ends_with_newline :: "string \<Rightarrow> bool" where
  "ends_with_newline line = (case rev line of [] \<Rightarrow> False | c # _ \<Rightarrow> c = LF)"

text \<open>The outer \<^verbatim>\<open>for line in src.splitlines(True)\<close>; the result is the join of
  \<^verbatim>\<open>out_lines\<close> with the two counters.\<close>

fun hash_lines :: "bool \<Rightarrow> string list \<Rightarrow> Result" where
  "hash_lines a [] = no_more"
| "hash_lines a (line # ls) =
     (case find_cut a 0 CFG_CODE line of
        Some k \<Rightarrow>  \<comment> \<open>\<open>k\<close> is \<^verbatim>\<open>cut\<close>\<close>
          counted (length line - k)
            (emit (rstrip (take k line) @ (if ends_with_newline line then [LF] else []))
               (hash_lines a ls))
      | None \<Rightarrow> emit line (hash_lines a ls))"

definition strip_comments_hash_and_semicolon :: "string \<Rightarrow> bool \<Rightarrow> Result" where
  "strip_comments_hash_and_semicolon src allow_semicolon =
     hash_lines allow_semicolon (splitlines src)"

subsection \<open>\<^verbatim>\<open>strip_comments\<close>: the dispatcher\<close>

text \<open>\<^verbatim>\<open>lang.lower()\<close> on the code points up to U+00FF: the letters A to Z and the
  capital letters U+00C0 to U+00DE (U+00D7 is the multiplication sign) move up by 32.\<close>

definition lower_char :: "char \<Rightarrow> char" where
  "lower_char c =
     (let n = (of_char c :: nat) in
      if 65 \<le> n \<and> n \<le> 90 then char_of (n + 32)
      else if n = 215 then c
      else if 192 \<le> n \<and> n \<le> 222 then char_of (n + 32)
      else c)"

definition lower :: "string \<Rightarrow> string" where
  "lower s = map lower_char s"

definition strip_comments :: "string \<Rightarrow> string \<Rightarrow> Result" where
  "strip_comments src lang0 =
     (let lang = lower lang0 in
      if lang \<in> {''c'', ''cpp'', ''csharp'', ''java'', ''css'', ''rust'', ''go'', ''jsonc'', ''php''}
      then strip_comments_c_like src (lang = ''php'') False
      else if lang \<in> {''js'', ''ts''} then strip_comments_c_like src False True
      else if lang = ''python'' then strip_comments_python src
      else if lang = ''sql'' then strip_comments_sql src
      else if lang \<in> {''html'', ''xml''} then strip_comments_html src
      else if lang = ''ruby'' then strip_comments_ruby src
      else if lang = ''bash'' then strip_comments_c_like src True False
      else if lang = ''yaml'' then strip_comments_hash_and_semicolon src False
      else if lang \<in> {''toml'', ''ini''} then strip_comments_hash_and_semicolon src True
      else strip_comments_c_like src False False)"

section \<open>The texts the properties are about\<close>

text \<open>
  The predicates of this section are not part of the program: they say which texts a
  property speaks about.

  \<open>lit_body q body\<close>: \<open>body\<close> is the content of a well-formed literal whose quote is \<open>q\<close>
  and whose escape character is the backslash: a sequence of escape pairs (a backslash
  and any character) and of characters that are neither \<open>q\<close> nor a backslash.
\<close>

fun lit_body :: "char \<Rightarrow> string \<Rightarrow> bool" where
  "lit_body q [] = True"
| "lit_body q [c] = (c \<noteq> q \<and> c \<noteq> BSL)"
| "lit_body q (c # d # cs) =
     (if c = BSL then lit_body q cs else (c \<noteq> q \<and> lit_body q (d # cs)))"

text \<open>\<open>lit_open q body\<close>: \<open>body\<close> is what follows the opening quote \<open>q\<close> of a literal that
  is not closed before the end of the input; its last character may be a backslash.\<close>

fun lit_open :: "char \<Rightarrow> string \<Rightarrow> bool" where
  "lit_open q [] = True"
| "lit_open q [c] = (c \<noteq> q)"
| "lit_open q (c # d # cs) =
     (if c = BSL then lit_open q cs else (c \<noteq> q \<and> lit_open q (d # cs)))"

text \<open>\<open>contains p xs\<close>: the text \<open>p\<close> occurs in \<open>xs\<close>.\<close>

fun contains :: "string \<Rightarrow> string \<Rightarrow> bool" where
  "contains p [] = (p = [])"
| "contains p (c # cs) = (starts_with p (c # cs) \<or> contains p cs)"

text \<open>\<open>end_line_in bol xs\<close>: some line of \<open>xs\<close> starts, after blanks, with \<^verbatim>\<open>=end\<close>; the
  first position counts as a line start when \<open>bol\<close> holds, the others when they follow a
  \<^verbatim>\<open>\n\<close>.\<close>

fun end_line_in :: "bool \<Rightarrow> string \<Rightarrow> bool" where
  "end_line_in bol [] = False"
| "end_line_in bol (c # cs) =
     ((bol \<and> line_marker_at ''=end'' (c # cs)) \<or> end_line_in (c = LF) cs)"

text \<open>
  The definitions that follow serve the properties of the line-truncation scanner: they
  read a whole text character by character, where the scanner reads it line by line.

  \<open>take_line xs\<close> is the first line of \<open>xs\<close> with its line end, as \<^verbatim>\<open>splitlines(True)\<close>
  cuts it, and \<open>drop_line xs\<close> is what follows that line.
\<close>

fun take_line :: "string \<Rightarrow> string" where
  "take_line [] = []"
| "take_line [c] = [c]"
| "take_line (c # d # cs) =
     (if c = CR \<and> d = LF then [c, d]
      else if is_linebreak c then [c]
      else c # take_line (d # cs))"

fun drop_line :: "string \<Rightarrow> string" where
  "drop_line [] = []"
| "drop_line [c] = []"
| "drop_line (c # d # cs) =
     (if c = CR \<and> d = LF then cs
      else if is_linebreak c then d # cs
      else drop_line (d # cs))"

text \<open>
  \<open>cfg_scan a st xs\<close>: read from the quote state \<open>st\<close>, with the state set back to code
  after every line end, the text \<open>xs\<close> has no comment marker outside quotes; \<open>a\<close> says
  whether the semicolon is a marker.  A backslash inside quotes hides the character
  after it, as in \<open>find_cut\<close>.
\<close>

function cfg_scan :: "bool \<Rightarrow> cfg_state \<Rightarrow> string \<Rightarrow> bool" where
  "cfg_scan a st [] = True"
| "cfg_scan a CFG_IN_SGL (ch # rest) =
     (if ch = BSL \<and> rest \<noteq> [] then
        cfg_scan a (if is_linebreak (hd rest) then CFG_CODE else CFG_IN_SGL) (tl rest)
      else if is_linebreak ch then cfg_scan a CFG_CODE rest
      else if ch = SQ then cfg_scan a CFG_CODE rest
      else cfg_scan a CFG_IN_SGL rest)"
| "cfg_scan a CFG_IN_DBL (ch # rest) =
     (if ch = BSL \<and> rest \<noteq> [] then
        cfg_scan a (if is_linebreak (hd rest) then CFG_CODE else CFG_IN_DBL) (tl rest)
      else if is_linebreak ch then cfg_scan a CFG_CODE rest
      else if ch = DQ then cfg_scan a CFG_CODE rest
      else cfg_scan a CFG_IN_DBL rest)"
| "cfg_scan a CFG_CODE (ch # rest) =
     (if ch = SQ then cfg_scan a CFG_IN_SGL rest
      else if ch = DQ then cfg_scan a CFG_IN_DBL rest
      else if ch = CHR ''#'' then False
      else if a \<and> ch = CHR '';'' then False
      else cfg_scan a CFG_CODE rest)"
  by pat_completeness auto
termination
  by (relation "measure (\<lambda>(a, st, rest). length rest)") auto

text \<open>\<open>cfg_clean a st xs\<close>: read from the quote state \<open>st\<close>, the piece of line \<open>xs\<close> has no
  comment marker outside quotes and ends outside quotes.\<close>

function cfg_clean :: "bool \<Rightarrow> cfg_state \<Rightarrow> string \<Rightarrow> bool" where
  "cfg_clean a st [] = (st = CFG_CODE)"
| "cfg_clean a CFG_IN_SGL (ch # rest) =
     (if ch = BSL \<and> rest \<noteq> [] then cfg_clean a CFG_IN_SGL (tl rest)
      else if ch = SQ then cfg_clean a CFG_CODE rest
      else cfg_clean a CFG_IN_SGL rest)"
| "cfg_clean a CFG_IN_DBL (ch # rest) =
     (if ch = BSL \<and> rest \<noteq> [] then cfg_clean a CFG_IN_DBL (tl rest)
      else if ch = DQ then cfg_clean a CFG_CODE rest
      else cfg_clean a CFG_IN_DBL rest)"
| "cfg_clean a CFG_CODE (ch # rest) =
     (if ch = SQ then cfg_clean a CFG_IN_SGL rest
      else if ch = DQ then cfg_clean a CFG_IN_DBL rest
      else if ch = CHR ''#'' then False
      else if a \<and> ch = CHR '';'' then False
      else cfg_clean a CFG_CODE rest)"
  by pat_completeness auto
termination
  by (relation "measure (\<lambda>(a, st, rest). length rest)") auto

section \<open>Properties\<close>

subsection \<open>The result record\<close>

lemma rtext_emit [simp]: "rtext (emit cs r) = cs @ rtext r"
  and found_emit [simp]: "comments_found (emit cs r) = comments_found r"
  and removed_emit [simp]: "comments_removed_chars (emit cs r) = comments_removed_chars r"
  by (simp_all add: emit_def)

lemma rtext_counted [simp]: "rtext (counted k r) = rtext r"
  and found_counted [simp]: "comments_found (counted k r) = Suc (comments_found r)"
  and removed_counted [simp]:
    "comments_removed_chars (counted k r) = k + comments_removed_chars r"
  by (simp_all add: counted_def)

lemma no_more_sel [simp]:
  "rtext no_more = []" "comments_found no_more = 0" "comments_removed_chars no_more = 0"
  by (simp_all add: no_more_def)

lemma emit_emit [simp]: "emit cs (emit ds r) = emit (cs @ ds) r"
  by (simp add: emit_def)

lemma emit_Nil [simp]: "emit [] r = r"
  by (simp add: emit_def)

lemma emit_no_more_eq:
  "(r = emit xs no_more) =
     (rtext r = xs \<and> comments_found r = 0 \<and> comments_removed_chars r = 0)"
  by (cases r) (auto simp: emit_def no_more_def)

subsection \<open>Single-quoted strings under the JS/TS profile\<close>

text \<open>
  With backtick support switched on, the C-like scanner opens a single-quoted string only
  under \<^verbatim>\<open>not support_backtick\<close>, so for \<^verbatim>\<open>js\<close> and \<^verbatim>\<open>ts\<close> the single quote is an ordinary
  character, although the comment above the scanner says that it preserves both quotes
  and template literals: in \<^verbatim>\<open>x = 'http://a';\<close> everything from \<^verbatim>\<open>//\<close> on is removed and
  counted as a comment.  The amended claim C1 below says nothing about this quote kind.
\<close>

theorem js_single_quote_not_tracked:
  "strip_comments (''x = '' @ [SQ] @ ''http://a'' @ [SQ] @ '';'') ''js''
     = \<lparr>rtext = ''x = '' @ [SQ] @ ''http:'', comments_found = 1,
        comments_removed_chars = 5\<rparr>"
  by code_simp

subsection \<open>The count of removed characters\<close>

text \<open>
  Claim C4 says that \<^verbatim>\<open>charactersRemoved\<close> is the length of the source minus the length
  of the cleaned text, hence at most the length of the source.  For a block comment
  that is not closed and has at least one character after its opener, the scan stops at
  \<^verbatim>\<open>j = n - 1\<close> and \<^verbatim>\<open>j = j + 2 if j < n else n\<close> makes it \<^verbatim>\<open>n + 1\<close>: the three characters of
  \<^verbatim>\<open>/*x\<close> are removed and four are counted, under the C-like and the SQL scanner alike.
  The INI/TOML/YAML scanner counts the line from the marker to its end, line terminator
  included, although the terminator is put back and the blanks trimmed before the marker
  are not counted.
\<close>

theorem unterminated_block_overcount:
  "strip_comments ''/*x'' ''c''
     = \<lparr>rtext = [], comments_found = 1, comments_removed_chars = 4\<rparr>
   \<and> length ''/*x'' - length (rtext (strip_comments ''/*x'' ''c'')) = 3
   \<and> strip_comments ''/*x'' ''sql''
     = \<lparr>rtext = [], comments_found = 1, comments_removed_chars = 4\<rparr>
   \<and> strip_comments (''a#b'' @ [LF]) ''ini''
     = \<lparr>rtext = ''a'' @ [LF], comments_found = 1, comments_removed_chars = 3\<rparr>
   \<and> strip_comments ''a   #b'' ''ini''
     = \<lparr>rtext = ''a'', comments_found = 1, comments_removed_chars = 2\<rparr>"
  by code_simp

subsection \<open>The Bash profile\<close>

text \<open>
  The dispatcher sends \<^verbatim>\<open>bash\<close> to the C-like scanner with the hash switched on, under the
  comment \<^verbatim>\<open>shell: just #\<close>; that scanner still removes \<^verbatim>\<open>//\<close> and \<^verbatim>\<open>/* */\<close>.  The amended
  claim C6 below says nothing about these two markers.
\<close>

theorem bash_strips_c_comments:
  "strip_comments ''echo a//b'' ''bash''
     = \<lparr>rtext = ''echo a'', comments_found = 1, comments_removed_chars = 3\<rparr>
   \<and> strip_comments ''ls /*x*/ y'' ''bash''
     = \<lparr>rtext = ''ls  y'', comments_found = 1, comments_removed_chars = 5\<rparr>"
  by code_simp

subsection \<open>Line ends under the line-truncation profiles\<close>

text \<open>
  Claim C8 says that every line-ending character outside a removed comment survives, and
  that the \<^verbatim>\<open>\r\n\<close> of a line whose tail was removed stays \<^verbatim>\<open>\r\n\<close>.  The INI/TOML/YAML
  scanner cuts the line at the marker and puts back \<^verbatim>\<open>\n\<close> when the line ended with
  \<^verbatim>\<open>\n\<close>: \<^verbatim>\<open>\r\n\<close> comes out as \<^verbatim>\<open>\n\<close>, and a line that ended with \<^verbatim>\<open>\r\<close> alone loses its
  line end.
\<close>

theorem yaml_crlf_not_kept:
  "strip_comments (''a#b'' @ [CR, LF] @ ''c'') ''yaml''
     = \<lparr>rtext = ''a'' @ [LF] @ ''c'', comments_found = 1, comments_removed_chars = 4\<rparr>
   \<and> strip_comments (''a#b'' @ [CR] @ ''c'') ''yaml''
     = \<lparr>rtext = ''ac'', comments_found = 1, comments_removed_chars = 3\<rparr>"
  by code_simp

subsection \<open>Triple quotes under the Python profile\<close>

text \<open>
  Claim C9: in code, a triple-quote opener is tried before the one-character quote at the
  same position, for both quote characters and at every index, and the scan of
  \<^verbatim>\<open>s = '''# not a comment'''\<close> returns the input with no comment found.
\<close>

theorem python_triple_quote_priority:
  "python_loop i PY_CODE (SQ # SQ # SQ # rest)
     = emit [SQ, SQ, SQ] (python_loop (i + 3) IN_TSQ rest)
   \<and> python_loop i PY_CODE (DQ # DQ # DQ # rest)
     = emit [DQ, DQ, DQ] (python_loop (i + 3) IN_TDQ rest)
   \<and> strip_comments (''s = '' @ [SQ, SQ, SQ] @ ''# not a comment'' @ [SQ, SQ, SQ]) ''python''
     = \<lparr>rtext = ''s = '' @ [SQ, SQ, SQ] @ ''# not a comment'' @ [SQ, SQ, SQ],
        comments_found = 0, comments_removed_chars = 0\<rparr>"
proof -
  have sgl: "python_loop i PY_CODE (SQ # SQ # SQ # rest)
      = emit [SQ, SQ, SQ] (python_loop (i + 3) IN_TSQ rest)"
    by (simp add: triple_at_def)
  have dbl: "python_loop i PY_CODE (DQ # DQ # DQ # rest)
      = emit [DQ, DQ, DQ] (python_loop (i + 3) IN_TDQ rest)"
    by (simp add: triple_at_def)
  have example:
    "strip_comments (''s = '' @ [SQ, SQ, SQ] @ ''# not a comment'' @ [SQ, SQ, SQ]) ''python''
      = \<lparr>rtext = ''s = '' @ [SQ, SQ, SQ] @ ''# not a comment'' @ [SQ, SQ, SQ],
         comments_found = 0, comments_removed_chars = 0\<rparr>"
    by code_simp
  from sgl dbl example show ?thesis by blast
qed

subsection \<open>A scan that finds no comment\<close>

lemma peek_is_simps [simp]: "peek_is [] c = False" "peek_is (x # xs) c = (x = c)"
  by (simp_all add: peek_is_def)

lemma peek_is_tl: "peek_is rest c \<Longrightarrow> c # tl rest = rest"
  by (cases rest) simp_all

lemma triple_at_Cons: "triple_at q (ch # rest) \<Longrightarrow> ch = q \<and> q # q # drop 2 rest = rest"
  by (cases rest; cases "tl rest") (auto simp: triple_at_def)

text \<open>Every branch that drops characters also counts a comment, so a loop whose count is
  zero has copied its whole input.\<close>

lemma c_like_no_comment:
  "comments_found (c_like_loop h b i st d xs) = 0
   \<Longrightarrow> c_like_loop h b i st d xs = emit xs no_more"
proof (induction h b i st d xs rule: c_like_loop.induct)
  case (1 h b i st d)
  then show ?case by simp
next
  case (2 h b i d ch rest)
  then show ?case by (simp split: if_splits)
next
  case (3 h b i d ch rest)
  then show ?case by (simp split: if_splits)
next
  case (4 h b i d ch rest)
  then show ?case by (auto simp: peek_is_tl split: if_splits)
next
  case (5 h b i d ch rest)
  then show ?case by (auto split: if_splits)
qed

lemma python_no_comment:
  "comments_found (python_loop i st xs) = 0 \<Longrightarrow> python_loop i st xs = emit xs no_more"
proof (induction i st xs rule: python_loop.induct)
  case (1 i st)
  then show ?case by simp
next
  case (2 i ch rest)
  then show ?case by (simp split: if_splits)
next
  case (3 i ch rest)
  then show ?case by (simp split: if_splits)
next
  case (4 i ch rest)
  then show ?case by (auto dest: triple_at_Cons split: if_splits)
next
  case (5 i ch rest)
  then show ?case by (auto dest: triple_at_Cons split: if_splits)
next
  case (6 i ch rest)
  then show ?case by (auto dest: triple_at_Cons split: if_splits)
qed

lemma sql_no_comment:
  "comments_found (sql_loop st xs) = 0 \<Longrightarrow> sql_loop st xs = emit xs no_more"
proof (induction st xs rule: sql_loop.induct)
  case (1 st)
  then show ?case by simp
next
  case (2 ch rest)
  then show ?case by (simp split: if_splits)
next
  case (3 ch rest)
  then show ?case by (simp split: if_splits)
next
  case (4 ch rest)
  then show ?case by (simp split: if_splits)
next
  case (5 ch rest)
  then show ?case by (auto split: if_splits)
qed

lemma ruby_loop_no_comment:
  "comments_found (ruby_loop st xs) = 0 \<Longrightarrow> ruby_loop st xs = emit xs no_more"
proof (induction st xs rule: ruby_loop.induct)
  case (1 st)
  then show ?case by simp
next
  case (2 ch rest)
  then show ?case by (auto split: if_splits)
next
  case (3 ch rest)
  then show ?case by (auto split: if_splits)
next
  case (4 ch rest)
  then show ?case by (auto split: if_splits)
qed

lemma ruby_blocks_no_comment:
  "comments_found (ruby_blocks bol xs) = 0 \<Longrightarrow> ruby_blocks bol xs = emit xs no_more"
proof (induction bol xs rule: ruby_blocks.induct)
  case (1 bol)
  then show ?case by simp
next
  case (2 bol c cs)
  show ?case
  proof (cases "bol \<and> line_marker_at ''=begin'' (c # cs)")
    case True
    with "2.prems" "2.IH"(1,2) show ?thesis
      by (auto simp del: takeWhile.simps split: option.splits)
  next
    case False
    with "2.prems" "2.IH"(3) show ?thesis by auto
  qed
qed

lemma html_no_comment:
  "comments_found (html_sub xs) = 0 \<Longrightarrow> html_sub xs = emit xs no_more"
proof (induction xs rule: html_sub.induct)
  case 1
  then show ?case by simp
next
  case (2 c cs)
  then show ?case by (simp split: if_splits option.splits)
qed

text \<open>Joining the lines of \<^verbatim>\<open>splitlines(True)\<close> gives the text back.\<close>

lemma concat_splitlines_from: "concat (splitlines_from cur xs) = cur @ xs"
  by (induction cur xs rule: splitlines_from.induct) auto

lemma hash_lines_no_comment:
  "comments_found (hash_lines a ls) = 0 \<Longrightarrow> hash_lines a ls = emit (concat ls) no_more"
  by (induction ls) (auto split: option.splits)

lemma strip_c_like_no_comment:
  "comments_found (strip_comments_c_like src h b) = 0
   \<Longrightarrow> strip_comments_c_like src h b = emit src no_more"
  unfolding strip_comments_c_like_def by (rule c_like_no_comment)

lemma strip_ruby_no_comment:
  assumes "comments_found (strip_comments_ruby src) = 0"
  shows "strip_comments_ruby src = emit src no_more"
proof -
  from assms have b: "comments_found (ruby_blocks True src) = 0"
    and l: "comments_found (ruby_loop RB_CODE (rtext (ruby_blocks True src))) = 0"
    by (simp_all add: strip_comments_ruby_def Let_def)
  from b have b': "ruby_blocks True src = emit src no_more"
    by (rule ruby_blocks_no_comment)
  with l have "ruby_loop RB_CODE src = emit src no_more"
    by (simp add: ruby_loop_no_comment)
  with b' show ?thesis
    by (simp add: strip_comments_ruby_def Let_def emit_def no_more_def)
qed

lemma strip_hash_no_comment:
  "comments_found (strip_comments_hash_and_semicolon src a) = 0
   \<Longrightarrow> strip_comments_hash_and_semicolon src a = emit src no_more"
  unfolding strip_comments_hash_and_semicolon_def
  by (drule hash_lines_no_comment) (simp add: splitlines_def concat_splitlines_from)

text \<open>What holds of the result of every scanner holds of the result of the dispatcher,
  whatever the language identifier.\<close>

lemma if_cases: "(Q \<Longrightarrow> P x) \<Longrightarrow> (\<not> Q \<Longrightarrow> P y) \<Longrightarrow> P (if Q then x else y)"
  by simp

lemma strip_comments_cases:
  assumes c: "\<And>h b. P (strip_comments_c_like src h b)"
    and p: "P (strip_comments_python src)"
    and s: "P (strip_comments_sql src)"
    and x: "P (strip_comments_html src)"
    and r: "P (strip_comments_ruby src)"
    and l: "\<And>a. P (strip_comments_hash_and_semicolon src a)"
  shows "P (strip_comments src lang)"
  unfolding strip_comments_def Let_def
  apply (rule if_cases, rule c)
  apply (rule if_cases, rule c)
  apply (rule if_cases, rule p)
  apply (rule if_cases, rule s)
  apply (rule if_cases, rule x)
  apply (rule if_cases, rule r)
  apply (rule if_cases, rule c)
  apply (rule if_cases, rule l)
  apply (rule if_cases, rule l)
  apply (rule c)
  done

text \<open>
  Claim C10: for every language identifier and every text, a scan that returns
  \<^verbatim>\<open>commentsFound == 0\<close> returns the source text itself and \<^verbatim>\<open>charactersRemoved == 0\<close>.
\<close>

theorem no_comment_identity:
  assumes "comments_found (strip_comments src lang) = 0"
  shows "rtext (strip_comments src lang) = src
    \<and> comments_removed_chars (strip_comments src lang) = 0"
proof -
  have "comments_found (strip_comments src lang) = 0
      \<longrightarrow> strip_comments src lang = emit src no_more"
    by (rule strip_comments_cases)
       (simp_all add: strip_c_like_no_comment python_no_comment sql_no_comment
          html_no_comment strip_ruby_no_comment strip_hash_no_comment
          strip_comments_python_def strip_comments_sql_def strip_comments_html_def)
  with assms show ?thesis by simp
qed

theorem no_comment_identity_witness:
  "comments_found (strip_comments ''int x = 1;'' ''c'') = 0
   \<and> rtext (strip_comments ''int x = 1;'' ''c'') = ''int x = 1;''
   \<and> comments_removed_chars (strip_comments ''int x = 1;'' ''c'') = 0"
proof -
  have h: "comments_found (strip_comments ''int x = 1;'' ''c'') = 0"
    by code_simp
  from no_comment_identity [OF h] h show ?thesis by blast
qed

subsection \<open>Template literals\<close>

lemma c_like_depth_zero:
  "c_like_loop h b i st d xs = c_like_loop h b i st 0 xs"
proof (induction "length xs" arbitrary: xs h b i st d rule: less_induct)
  case less
  show ?case
  proof (cases xs)
    case Nil
    then show ?thesis by simp
  next
    case (Cons ch rest)
    have IH: "c_like_loop h b j s e ys = c_like_loop h b j s 0 ys"
      if "length ys \<le> length rest" for h b j s e ys
      using less [of ys h b j s e] that Cons by simp
    have r: "c_like_loop h b j s e rest = c_like_loop h b j s 0 rest" for h b j s e
      by (rule IH) simp
    have t: "c_like_loop h b j s e (tl rest) = c_like_loop h b j s 0 (tl rest)" for h b j s e
      by (rule IH) simp
    have dr: "c_like_loop h b j s e (drop k rest) = c_like_loop h b j s 0 (drop k rest)"
      for h b j s e k
      by (rule IH) simp
    have dt: "c_like_loop h b j s e (drop k (tl rest)) = c_like_loop h b j s 0 (drop k (tl rest))"
      for h b j s e k
      by (rule IH) simp
    show ?thesis
    proof (cases st)
      case C_CODE
      then show ?thesis
        by (auto simp: Cons r [of _ _ _ _ d] dr [of _ _ _ _ d] dt [of _ _ _ _ d])
    next
      case IN_STR_SGL
      then show ?thesis
        by (simp add: Cons r [of _ _ _ _ d] t [of _ _ _ _ d])
    next
      case IN_STR_DBL
      then show ?thesis
        by (simp add: Cons r [of _ _ _ _ d] t [of _ _ _ _ d])
    next
      case IN_TEMPLATE
      then show ?thesis
        by (simp add: Cons r [of _ _ _ _ d] t [of _ _ _ _ d] r [of _ _ _ _ "d - Suc 0"]
              t [of _ _ _ _ "Suc d"] t [of _ _ _ _ "Suc 0"])
    qed
  qed
qed


lemma emit_cancel: "(emit cs r = emit cs r') = (r = r')"
  by (cases r; cases r') (simp add: emit_def)

lemma lit_body_step:
  "lit_body q (c # cs) \<Longrightarrow> c \<noteq> BSL \<Longrightarrow> c \<noteq> q \<and> lit_body q cs"
  by (cases cs) simp_all

lemma lit_body_escape:
  "lit_body q (BSL # cs) \<Longrightarrow> cs \<noteq> [] \<and> lit_body q (tl cs)"
  by (cases cs) simp_all

lemma c_like_template_body_aux:
  "lit_body q body \<Longrightarrow> q = BT \<Longrightarrow>
   c_like_loop h b i IN_TEMPLATE d (body @ BT # rest)
     = emit (body @ [BT]) (c_like_loop h b (i + length body + 1) C_CODE 0 rest)"
proof (induction q body arbitrary: i d rule: lit_body.induct)
  case (1 q)
  show ?case by (simp add: c_like_depth_zero [of _ _ _ _ d])
next
  case (2 q c)
  then show ?case by (simp add: c_like_depth_zero [of _ _ _ _ d])
next
  case (3 q c e cs)
  show ?case
  proof (cases "c = BSL")
    case True
    with 3 show ?thesis by simp
  next
    case False
    with "3.prems" have c: "c \<noteq> BT" and l: "lit_body q (e # cs)" by simp_all
    show ?thesis
    proof (cases "c = CHR ''$'' \<and> e = CHR ''{''")
      case True
      from "3.IH"(2) [OF False l "3.prems"(2), of "i + 1" "d + 1"] True
      have "emit [e] (c_like_loop h b (i + 2) IN_TEMPLATE (d + 1) (cs @ BT # rest))
          = emit [e] (emit (cs @ [BT])
              (c_like_loop h b (i + length (c # e # cs) + 1) C_CODE 0 rest))"
        by simp
      then have "c_like_loop h b (i + 2) IN_TEMPLATE (d + 1) (cs @ BT # rest)
          = emit (cs @ [BT]) (c_like_loop h b (i + length (c # e # cs) + 1) C_CODE 0 rest)"
        by (simp only: emit_cancel)
      with True show ?thesis by simp
    next
      case f: False
      with False c l "3.IH"(2) "3.prems"(2) show ?thesis by auto
    qed
  qed
qed

subsection \<open>Quoted strings\<close>

lemma c_like_sgl_closed:
  "lit_body q body \<Longrightarrow> q = SQ \<Longrightarrow>
   c_like_loop h b i IN_STR_SGL d (body @ SQ # rest)
     = emit (body @ [SQ]) (c_like_loop h b (i + length body + 1) C_CODE d rest)"
proof (induction q body arbitrary: i rule: lit_body.induct)
  case (1 q)
  then show ?case by simp
next
  case (2 q c)
  then show ?case by simp
next
  case (3 q c e cs)
  then show ?case by (cases "c = BSL") simp_all
qed

lemma c_like_sgl_open:
  "lit_open q body \<Longrightarrow> q = SQ \<Longrightarrow> c_like_loop h b i IN_STR_SGL d body = emit body no_more"
proof (induction q body arbitrary: i rule: lit_open.induct)
  case (1 q)
  then show ?case by simp
next
  case (2 q c)
  then show ?case by simp
next
  case (3 q c e cs)
  then show ?case by (cases "c = BSL") simp_all
qed

lemma c_like_dbl_closed:
  "lit_body q body \<Longrightarrow> q = DQ \<Longrightarrow>
   c_like_loop h b i IN_STR_DBL d (body @ DQ # rest)
     = emit (body @ [DQ]) (c_like_loop h b (i + length body + 1) C_CODE d rest)"
proof (induction q body arbitrary: i rule: lit_body.induct)
  case (1 q)
  then show ?case by simp
next
  case (2 q c)
  then show ?case by simp
next
  case (3 q c e cs)
  then show ?case by (cases "c = BSL") simp_all
qed

lemma c_like_dbl_open:
  "lit_open q body \<Longrightarrow> q = DQ \<Longrightarrow> c_like_loop h b i IN_STR_DBL d body = emit body no_more"
proof (induction q body arbitrary: i rule: lit_open.induct)
  case (1 q)
  then show ?case by simp
next
  case (2 q c)
  then show ?case by simp
next
  case (3 q c e cs)
  then show ?case by (cases "c = BSL") simp_all
qed

lemma python_sgl_closed:
  "lit_body q body \<Longrightarrow> q = SQ \<Longrightarrow>
   python_loop i PY_IN_SGL (body @ SQ # rest)
     = emit (body @ [SQ]) (python_loop (i + length body + 1) PY_CODE rest)"
proof (induction q body arbitrary: i rule: lit_body.induct)
  case (1 q)
  then show ?case by simp
next
  case (2 q c)
  then show ?case by simp
next
  case (3 q c e cs)
  then show ?case by (cases "c = BSL") simp_all
qed

lemma python_sgl_open:
  "lit_open q body \<Longrightarrow> q = SQ \<Longrightarrow> python_loop i PY_IN_SGL body = emit body no_more"
proof (induction q body arbitrary: i rule: lit_open.induct)
  case (1 q)
  then show ?case by simp
next
  case (2 q c)
  then show ?case by simp
next
  case (3 q c e cs)
  then show ?case by (cases "c = BSL") simp_all
qed

lemma python_dbl_closed:
  "lit_body q body \<Longrightarrow> q = DQ \<Longrightarrow>
   python_loop i PY_IN_DBL (body @ DQ # rest)
     = emit (body @ [DQ]) (python_loop (i + length body + 1) PY_CODE rest)"
proof (induction q body arbitrary: i rule: lit_body.induct)
  case (1 q)
  then show ?case by simp
next
  case (2 q c)
  then show ?case by simp
next
  case (3 q c e cs)
  then show ?case by (cases "c = BSL") simp_all
qed

lemma python_dbl_open:
  "lit_open q body \<Longrightarrow> q = DQ \<Longrightarrow> python_loop i PY_IN_DBL body = emit body no_more"
proof (induction q body arbitrary: i rule: lit_open.induct)
  case (1 q)
  then show ?case by simp
next
  case (2 q c)
  then show ?case by simp
next
  case (3 q c e cs)
  then show ?case by (cases "c = BSL") simp_all
qed

lemma sql_sgl_closed:
  "lit_body q body \<Longrightarrow> q = SQ \<Longrightarrow>
   sql_loop SQL_IN_SGL (body @ SQ # rest)
     = emit (body @ [SQ]) (sql_loop SQL_CODE rest)"
proof (induction q body rule: lit_body.induct)
  case (1 q)
  then show ?case by simp
next
  case (2 q c)
  then show ?case by simp
next
  case (3 q c e cs)
  then show ?case by (cases "c = BSL") simp_all
qed

lemma sql_sgl_open:
  "lit_open q body \<Longrightarrow> q = SQ \<Longrightarrow> sql_loop SQL_IN_SGL body = emit body no_more"
proof (induction q body rule: lit_open.induct)
  case (1 q)
  then show ?case by simp
next
  case (2 q c)
  then show ?case by simp
next
  case (3 q c e cs)
  then show ?case by (cases "c = BSL") simp_all
qed

lemma sql_dbl_closed:
  "lit_body q body \<Longrightarrow> q = DQ \<Longrightarrow>
   sql_loop SQL_IN_DBL (body @ DQ # rest)
     = emit (body @ [DQ]) (sql_loop SQL_CODE rest)"
proof (induction q body rule: lit_body.induct)
  case (1 q)
  then show ?case by simp
next
  case (2 q c)
  then show ?case by simp
next
  case (3 q c e cs)
  then show ?case by (cases "c = BSL") simp_all
qed

lemma sql_dbl_open:
  "lit_open q body \<Longrightarrow> q = DQ \<Longrightarrow> sql_loop SQL_IN_DBL body = emit body no_more"
proof (induction q body rule: lit_open.induct)
  case (1 q)
  then show ?case by simp
next
  case (2 q c)
  then show ?case by simp
next
  case (3 q c e cs)
  then show ?case by (cases "c = BSL") simp_all
qed

lemma ruby_sgl_closed:
  "lit_body q body \<Longrightarrow> q = SQ \<Longrightarrow>
   ruby_loop RB_IN_SGL (body @ SQ # rest)
     = emit (body @ [SQ]) (ruby_loop RB_CODE rest)"
proof (induction q body rule: lit_body.induct)
  case (1 q)
  then show ?case by simp
next
  case (2 q c)
  then show ?case by simp
next
  case (3 q c e cs)
  then show ?case by (cases "c = BSL") simp_all
qed

lemma ruby_sgl_open:
  "lit_open q body \<Longrightarrow> q = SQ \<Longrightarrow> ruby_loop RB_IN_SGL body = emit body no_more"
proof (induction q body rule: lit_open.induct)
  case (1 q)
  then show ?case by simp
next
  case (2 q c)
  then show ?case by simp
next
  case (3 q c e cs)
  then show ?case by (cases "c = BSL") simp_all
qed

lemma ruby_dbl_closed:
  "lit_body q body \<Longrightarrow> q = DQ \<Longrightarrow>
   ruby_loop RB_IN_DBL (body @ DQ # rest)
     = emit (body @ [DQ]) (ruby_loop RB_CODE rest)"
proof (induction q body rule: lit_body.induct)
  case (1 q)
  then show ?case by simp
next
  case (2 q c)
  then show ?case by simp
next
  case (3 q c e cs)
  then show ?case by (cases "c = BSL") simp_all
qed

lemma ruby_dbl_open:
  "lit_open q body \<Longrightarrow> q = DQ \<Longrightarrow> ruby_loop RB_IN_DBL body = emit body no_more"
proof (induction q body rule: lit_open.induct)
  case (1 q)
  then show ?case by simp
next
  case (2 q c)
  then show ?case by simp
next
  case (3 q c e cs)
  then show ?case by (cases "c = BSL") simp_all
qed

subsection \<open>Block comments that are not closed\<close>

lemma starts_with_simps [simp]:
  "starts_with [] xs = True"
  "starts_with (p # ps) [] = False"
  "starts_with (p # ps) (x # xs) = (p = x \<and> starts_with ps xs)"
  by (auto simp: starts_with_def)

lemma skip_block_no_close:
  "\<not> contains ''*/'' body \<Longrightarrow> drop (skip_block body) body = []"
  by (induction body rule: skip_block.induct) auto

lemma c_like_unterminated_block:
  assumes "\<not> contains ''*/'' body"
  shows "c_like_loop h b i C_CODE d (CHR ''/'' # CHR ''*'' # body)
    = counted (2 + skip_block body) no_more"
  using skip_block_no_close [OF assms] by simp

lemma sql_unterminated_block:
  assumes "\<not> contains ''*/'' body"
  shows "sql_loop SQL_CODE (CHR ''/'' # CHR ''*'' # body) = counted (2 + skip_block body) no_more"
  using skip_block_no_close [OF assms] by simp

lemma find_arrow_None: "(find_arrow xs = None) = (\<not> contains ''-->'' xs)"
  by (induction xs) auto

lemma contains_drop: "\<not> contains p xs \<Longrightarrow> p \<noteq> [] \<Longrightarrow> \<not> contains p (drop k xs)"
proof (induction xs arbitrary: k)
  case Nil
  then show ?case by simp
next
  case (Cons x xs)
  then show ?case by (cases k) auto
qed

lemma html_sub_no_arrow:
  "\<not> contains ''-->'' (drop 4 xs) \<Longrightarrow> html_sub xs = emit xs no_more"
proof (induction xs rule: html_sub.induct)
  case 1
  then show ?case by simp
next
  case (2 c cs)
  from "2.prems" have a: "\<not> contains ''-->'' (drop 3 cs)" by simp
  then have "\<not> contains ''-->'' (drop 1 (drop 3 cs))" by (rule contains_drop) simp
  then have b: "\<not> contains ''-->'' (drop 4 cs)" by simp
  show ?case
  proof (cases "starts_with ''<!--'' (c # cs)")
    case True
    from a have n: "find_arrow (drop 3 cs) = None"
      by (simp add: find_arrow_None)
    with True "2.IH"(1) [OF True n b] show ?thesis by simp
  next
    case False
    with "2.IH"(3) [OF False b] show ?thesis by auto
  qed
qed

lemma html_unterminated:
  assumes "\<not> contains ''-->'' body"
  shows "html_sub (''<!--'' @ body) = emit (''<!--'' @ body) no_more"
  by (rule html_sub_no_arrow) (use assms in simp)

lemma find_end_None: "(find_end bol xs = None) = (\<not> end_line_in bol xs)"
  by (induction bol xs rule: find_end.induct) auto

lemma end_line_in_False: "\<not> end_line_in bol xs \<Longrightarrow> \<not> end_line_in False xs"
  by (cases xs) auto

lemma end_line_in_drop: "\<not> end_line_in bol xs \<Longrightarrow> \<not> end_line_in False (drop k xs)"
proof (induction k arbitrary: bol xs)
  case 0
  then show ?case by (simp add: end_line_in_False)
next
  case (Suc k)
  then show ?case by (cases xs) auto
qed

lemma ruby_blocks_no_end:
  "\<not> end_line_in bol xs \<Longrightarrow> ruby_blocks bol xs = emit xs no_more"
proof (induction bol xs rule: ruby_blocks.induct)
  case (1 bol)
  then show ?case by simp
next
  case (2 bol c cs)
  let ?m = "length (takeWhile is_blank (c # cs)) + 6"
  from "2.prems" have n: "find_end False (drop ?m (c # cs)) = None"
    unfolding find_end_None by (rule end_line_in_drop)
  from "2.prems" have t: "\<not> end_line_in (c = LF) cs" by simp
  show ?case
  proof (cases "bol \<and> line_marker_at ''=begin'' (c # cs)")
    case True
    with n "2.IH"(1) [OF True n t] show ?thesis
      by (simp del: takeWhile.simps)
  next
    case False
    with "2.IH"(3) [OF False t] show ?thesis by auto
  qed
qed

lemma ruby_unterminated:
  assumes "\<not> end_line_in False body"
  shows "strip_comments_ruby (''=begin'' @ body) = ruby_loop RB_CODE (''=begin'' @ body)"
proof -
  from assms have "\<not> end_line_in True (''=begin'' @ body)"
    by (simp add: line_marker_at_def is_blank_def)
  then have "ruby_blocks True (''=begin'' @ body) = emit (''=begin'' @ body) no_more"
    by (rule ruby_blocks_no_end)
  then show ?thesis
    by (simp add: strip_comments_ruby_def Let_def)
qed

subsection \<open>Claims about literals and block comments\<close>

lemma strip_comments_js: "strip_comments src ''js'' = strip_comments_c_like src False True"
  and strip_comments_ts: "strip_comments src ''ts'' = strip_comments_c_like src False True"
  by (simp_all add: strip_comments_def lower_def lower_char_def Let_def)

text \<open>
  Claim C2 says that after \<^verbatim>\<open>${\<close> in a template literal of the JS/TS profile, while the
  depth counter is positive, the scanner behaves as in code, so that comments inside the
  interpolated expression are removed and counted.  The scanner never leaves the
  template state on \<^verbatim>\<open>${\<close>: in the text below the line comment and the block comment
  inside \<^verbatim>\<open>${ }\<close> come out unchanged and no comment is counted.
\<close>

theorem template_interpolation_counterexample:
  "strip_comments ([BT] @ ''${1 // c'' @ [LF] @ ''+ 2 /* d */}'' @ [BT]) ''js''
     = \<lparr>rtext = [BT] @ ''${1 // c'' @ [LF] @ ''+ 2 /* d */}'' @ [BT],
        comments_found = 0, comments_removed_chars = 0\<rparr>"
  by code_simp

text \<open>
  Claim C2 as amended: in a template literal of the JS/TS profile, \<^verbatim>\<open>${\<close> only adds one to
  the depth counter and \<^verbatim>\<open>}\<close> takes one off; the scanner stays in the template state, so
  the whole literal up to its closing backtick, with any comment marker inside an
  interpolated expression, is copied unchanged and nothing in it is counted; the depth
  counter has no effect on the result of a scan.
\<close>

theorem template_literal_copied:
  assumes "lit_body BT body"
  shows "c_like_loop h b i IN_TEMPLATE d (body @ BT # rest)
      = emit (body @ [BT]) (c_like_loop h b (i + length body + 1) C_CODE 0 rest)
    \<and> strip_comments (BT # body @ [BT]) ''js'' = emit (BT # body @ [BT]) no_more
    \<and> strip_comments (BT # body @ [BT]) ''ts'' = emit (BT # body @ [BT]) no_more
    \<and> c_like_loop h b i st d xs = c_like_loop h b i st 0 xs"
proof -
  have loop: "c_like_loop h b i IN_TEMPLATE d (body @ BT # rest)
      = emit (body @ [BT]) (c_like_loop h b (i + length body + 1) C_CODE 0 rest)"
    for h b i d rest
    using assms by (rule c_like_template_body_aux) simp
  have whole: "strip_comments_c_like (BT # body @ [BT]) False True
      = emit (BT # body @ [BT]) no_more"
    by (simp add: strip_comments_c_like_def loop [where rest = "[]", simplified])
  show ?thesis
    using loop whole c_like_depth_zero [of h b i st d xs]
    by (simp only: strip_comments_js strip_comments_ts simp_thms)
qed

theorem template_literal_copied_witness:
  "lit_body BT ''${a//b}''
   \<and> c_like_loop False True 1 IN_TEMPLATE 0 (''${a//b}'' @ BT # ''//c'')
      = emit (''${a//b}'' @ [BT])
          (c_like_loop False True (1 + length ''${a//b}'' + 1) C_CODE 0 ''//c'')
   \<and> strip_comments (BT # ''${a//b}'' @ [BT]) ''js'' = emit (BT # ''${a//b}'' @ [BT]) no_more
   \<and> strip_comments (BT # ''${a//b}'' @ [BT]) ''ts'' = emit (BT # ''${a//b}'' @ [BT]) no_more
   \<and> c_like_loop False True 1 IN_TEMPLATE 2 ''}}'' = c_like_loop False True 1 IN_TEMPLATE 0 ''}}''"
proof -
  have h: "lit_body BT ''${a//b}''" by simp
  from template_literal_copied [OF h, where h = False and b = True and i = 1 and d = 0
      and rest = "''//c''"]
    template_literal_copied [OF h, where h = False and b = True and i = 1 and d = 2
      and st = IN_TEMPLATE and xs = "''}}''"] h
  show ?thesis by blast
qed

text \<open>
  Claim C3 says that in every profile with a block comment, an opener in code with no
  closer later in the input discards the rest of the input and counts one comment.  The
  HTML/XML comment is removed by a pattern that contains its closer, so an opener that
  is never closed is left where it is and nothing is counted.
\<close>

theorem html_unterminated_counterexample:
  "strip_comments ''a <!-- b'' ''html''
     = \<lparr>rtext = ''a <!-- b'', comments_found = 0, comments_removed_chars = 0\<rparr>"
  by code_simp

text \<open>
  Claim C3 as amended: in the profiles with \<^verbatim>\<open>/* */\<close> that the claim names (the C-like
  profiles, PHP and JS/TS, all read by the C-like scanner, and SQL), an opener met in code
  with no \<^verbatim>\<open>*/\<close> after it discards everything from the opener to the end of the input and
  counts exactly one comment.  For HTML/XML and Ruby the block comment is a pattern that
  includes its closer: \<^verbatim>\<open><!--\<close> with no \<^verbatim>\<open>-->\<close> after it, and a \<^verbatim>\<open>=begin\<close> line with no later line that starts
  with \<^verbatim>\<open>=end\<close>, are not comments; the pattern removes and counts nothing (for Ruby the
  text then goes to the pass for \<^verbatim>\<open>#\<close> as it is).
\<close>

theorem unterminated_block_by_profile:
  "(\<not> contains ''*/'' body \<longrightarrow>
      rtext (c_like_loop h b i C_CODE d (''/*'' @ body)) = []
      \<and> comments_found (c_like_loop h b i C_CODE d (''/*'' @ body)) = 1
      \<and> rtext (sql_loop SQL_CODE (''/*'' @ body)) = []
      \<and> comments_found (sql_loop SQL_CODE (''/*'' @ body)) = 1)
   \<and> (\<not> contains ''-->'' body \<longrightarrow>
      strip_comments_html (''<!--'' @ body) = emit (''<!--'' @ body) no_more)
   \<and> (\<not> end_line_in False body \<longrightarrow>
      ruby_blocks True (''=begin'' @ body) = emit (''=begin'' @ body) no_more
      \<and> strip_comments_ruby (''=begin'' @ body) = ruby_loop RB_CODE (''=begin'' @ body))"
proof (intro conjI impI)
  assume n: "\<not> contains ''*/'' body"
  from c_like_unterminated_block [OF n, of h b i d]
  show "rtext (c_like_loop h b i C_CODE d (''/*'' @ body)) = []"
    and "comments_found (c_like_loop h b i C_CODE d (''/*'' @ body)) = 1"
    by simp_all
  from sql_unterminated_block [OF n]
  show "rtext (sql_loop SQL_CODE (''/*'' @ body)) = []"
    and "comments_found (sql_loop SQL_CODE (''/*'' @ body)) = 1"
    by simp_all
next
  assume "\<not> contains ''-->'' body"
  then show "strip_comments_html (''<!--'' @ body) = emit (''<!--'' @ body) no_more"
    unfolding strip_comments_html_def by (rule html_unterminated)
next
  assume n: "\<not> end_line_in False body"
  then have "\<not> end_line_in True (''=begin'' @ body)"
    by (simp add: line_marker_at_def is_blank_def)
  then show "ruby_blocks True (''=begin'' @ body) = emit (''=begin'' @ body) no_more"
    by (rule ruby_blocks_no_end)
  from n show "strip_comments_ruby (''=begin'' @ body) = ruby_loop RB_CODE (''=begin'' @ body)"
    by (rule ruby_unterminated)
qed

theorem unterminated_block_by_profile_witness:
  "\<not> contains ''*/'' '' x * /'' \<and> \<not> contains ''-->'' '' x * /''
   \<and> \<not> end_line_in False '' x * /''
   \<and> rtext (c_like_loop True False 3 C_CODE 0 (''/*'' @ '' x * /'')) = []
   \<and> comments_found (c_like_loop True False 3 C_CODE 0 (''/*'' @ '' x * /'')) = 1
   \<and> rtext (sql_loop SQL_CODE (''/*'' @ '' x * /'')) = []
   \<and> comments_found (sql_loop SQL_CODE (''/*'' @ '' x * /'')) = 1
   \<and> strip_comments_html (''<!--'' @ '' x * /'') = emit (''<!--'' @ '' x * /'') no_more
   \<and> ruby_blocks True (''=begin'' @ '' x * /'') = emit (''=begin'' @ '' x * /'') no_more
   \<and> strip_comments_ruby (''=begin'' @ '' x * /'') = ruby_loop RB_CODE (''=begin'' @ '' x * /'')"
proof -
  have a: "\<not> contains ''*/'' '' x * /''" by simp
  have b: "\<not> contains ''-->'' '' x * /''" by simp
  have c: "\<not> end_line_in False '' x * /''"
    by (simp add: line_marker_at_def is_blank_def)
  from unterminated_block_by_profile [where body = "'' x * /''" and h = True and b = False
      and i = 3 and d = 0] a b c
  show ?thesis by blast
qed

lemma lit_body_append:
  "lit_body q xs \<Longrightarrow> lit_body q ys \<Longrightarrow> lit_body q (xs @ ys)"
proof (induction q xs rule: lit_body.induct)
  case (1 q)
  then show ?case by simp
next
  case (2 q c)
  then show ?case by (cases ys) simp_all
next
  case (3 q c d cs)
  then show ?case by (simp split: if_splits)
qed

lemma lit_body_append_open:
  "lit_body q xs \<Longrightarrow> lit_open q ys \<Longrightarrow> lit_open q (xs @ ys)"
proof (induction q xs rule: lit_body.induct)
  case (1 q)
  then show ?case by simp
next
  case (2 q c)
  then show ?case by (cases ys) simp_all
next
  case (3 q c d cs)
  then show ?case by (simp split: if_splits)
qed

lemma lit_body_Cons: "c \<noteq> q \<Longrightarrow> c \<noteq> BSL \<Longrightarrow> lit_body q xs \<Longrightarrow> lit_body q (c # xs)"
  by (cases xs) simp_all

lemma lit_open_Cons: "c \<noteq> q \<Longrightarrow> c \<noteq> BSL \<Longrightarrow> lit_open q xs \<Longrightarrow> lit_open q (c # xs)"
  by (cases xs) simp_all

lemma lit_open_not_triple: "lit_open q xs \<Longrightarrow> q \<noteq> BSL \<Longrightarrow> \<not> triple_at q (q # xs)"
  by (cases xs; cases "tl xs") (auto simp: triple_at_def split: if_splits)

text \<open>
  Claim C7 says that in every profile that tracks single- or double-quoted strings, a
  newline inside an open string does not close it, so that the following lines, comment
  markers included, are copied until a closing quote or the end of the input.  The
  INI/TOML/YAML scanner tracks both quotes but starts every line in code: the string
  opened on the first line below is still open at the newline, and the \<^verbatim>\<open>#\<close> on the second
  line is removed and counted.
\<close>

theorem yaml_newline_resets_quote_counterexample:
  "strip_comments ([DQ] @ ''a'' @ [LF] @ ''# c'') ''yaml''
     = \<lparr>rtext = [DQ] @ ''a'' @ [LF], comments_found = 1, comments_removed_chars = 3\<rparr>"
  by code_simp

text \<open>
  Claim C7 as amended: in the four character scanners (C-like for a quote it tracks,
  Python, SQL, and the \<^verbatim>\<open>#\<close> pass of Ruby), a newline that is not escaped inside an open
  single- or double-quoted string does not close it: the text before the newline, the
  newline and the text after it, whatever comment markers it holds, are copied unchanged
  and nothing is counted, up to the closing quote, or up to the end of the input when no
  closing quote follows.  The line-truncation scanner of INI, TOML and YAML starts every
  line in code, and the block pattern of Ruby runs before its strings are looked at.
\<close>

theorem newline_keeps_string_open:
  assumes q: "q = SQ \<or> q = DQ" and pre: "lit_body q pre" and tracked: "b \<longrightarrow> q = DQ"
  shows "(lit_body q post \<longrightarrow>
      c_like_loop h b' i (if q = SQ then IN_STR_SGL else IN_STR_DBL) d (pre @ LF # post @ q # rest)
        = emit (pre @ LF # post @ [q])
            (c_like_loop h b' (i + length (pre @ LF # post) + 1) C_CODE d rest)
      \<and> python_loop i (if q = SQ then PY_IN_SGL else PY_IN_DBL) (pre @ LF # post @ q # rest)
        = emit (pre @ LF # post @ [q])
            (python_loop (i + length (pre @ LF # post) + 1) PY_CODE rest)
      \<and> sql_loop (if q = SQ then SQL_IN_SGL else SQL_IN_DBL) (pre @ LF # post @ q # rest)
        = emit (pre @ LF # post @ [q]) (sql_loop SQL_CODE rest)
      \<and> ruby_loop (if q = SQ then RB_IN_SGL else RB_IN_DBL) (pre @ LF # post @ q # rest)
        = emit (pre @ LF # post @ [q]) (ruby_loop RB_CODE rest))
    \<and> (lit_open q post \<longrightarrow>
      strip_comments_c_like (q # pre @ LF # post) h b = emit (q # pre @ LF # post) no_more
      \<and> strip_comments_python (q # pre @ LF # post) = emit (q # pre @ LF # post) no_more
      \<and> strip_comments_sql (q # pre @ LF # post) = emit (q # pre @ LF # post) no_more
      \<and> ruby_loop RB_CODE (q # pre @ LF # post) = emit (q # pre @ LF # post) no_more)"
proof (intro conjI impI)
  assume post: "lit_body q post"
  from q post have "lit_body q (LF # post)" by (auto intro: lit_body_Cons)
  with pre have body: "lit_body q (pre @ LF # post)" by (rule lit_body_append)
  from q show "c_like_loop h b' i (if q = SQ then IN_STR_SGL else IN_STR_DBL) d
        (pre @ LF # post @ q # rest)
      = emit (pre @ LF # post @ [q])
          (c_like_loop h b' (i + length (pre @ LF # post) + 1) C_CODE d rest)"
    using c_like_sgl_closed [OF body, of h b' i d rest] c_like_dbl_closed [OF body, of h b' i d rest]
    by auto
  from q show "python_loop i (if q = SQ then PY_IN_SGL else PY_IN_DBL) (pre @ LF # post @ q # rest)
      = emit (pre @ LF # post @ [q]) (python_loop (i + length (pre @ LF # post) + 1) PY_CODE rest)"
    using python_sgl_closed [OF body, of i rest] python_dbl_closed [OF body, of i rest]
    by auto
  from q show "sql_loop (if q = SQ then SQL_IN_SGL else SQL_IN_DBL) (pre @ LF # post @ q # rest)
      = emit (pre @ LF # post @ [q]) (sql_loop SQL_CODE rest)"
    using sql_sgl_closed [OF body, of rest] sql_dbl_closed [OF body, of rest]
    by auto
  from q show "ruby_loop (if q = SQ then RB_IN_SGL else RB_IN_DBL) (pre @ LF # post @ q # rest)
      = emit (pre @ LF # post @ [q]) (ruby_loop RB_CODE rest)"
    using ruby_sgl_closed [OF body, of rest] ruby_dbl_closed [OF body, of rest]
    by auto
next
  assume post: "lit_open q post"
  from q post have "lit_open q (LF # post)" by (auto intro: lit_open_Cons)
  with pre have body: "lit_open q (pre @ LF # post)" by (rule lit_body_append_open)
  from q have "q \<noteq> BSL" by auto
  with body have nt: "\<not> triple_at q (q # pre @ LF # post)"
    by (rule lit_open_not_triple)
  from q have nt': "\<not> triple_at (if q = SQ then DQ else SQ) (q # pre @ LF # post)"
    by (auto simp: triple_at_def)
  from q tracked show "strip_comments_c_like (q # pre @ LF # post) h b
      = emit (q # pre @ LF # post) no_more"
    using c_like_sgl_open [OF body, of h b 1 0] c_like_dbl_open [OF body, of h b 1 0]
    by (auto simp: strip_comments_c_like_def)
  from q nt nt' show "strip_comments_python (q # pre @ LF # post) = emit (q # pre @ LF # post) no_more"
    using python_sgl_open [OF body, of 1] python_dbl_open [OF body, of 1]
    by (auto simp: strip_comments_python_def)
  from q show "strip_comments_sql (q # pre @ LF # post) = emit (q # pre @ LF # post) no_more"
    using sql_sgl_open [OF body] sql_dbl_open [OF body]
    by (auto simp: strip_comments_sql_def)
  from q show "ruby_loop RB_CODE (q # pre @ LF # post) = emit (q # pre @ LF # post) no_more"
    using ruby_sgl_open [OF body] ruby_dbl_open [OF body]
    by auto
qed

theorem newline_keeps_string_open_witness:
  "lit_body DQ ''a'' \<and> lit_body DQ ''// b # c'' \<and> lit_open DQ ''// b # c''
   \<and> c_like_loop True False 1 IN_STR_DBL 0 (''a'' @ LF # ''// b # c'' @ DQ # ''; // d'')
      = emit (''a'' @ LF # ''// b # c'' @ [DQ])
          (c_like_loop True False (1 + length (''a'' @ LF # ''// b # c'') + 1) C_CODE 0 ''; // d'')
   \<and> python_loop 1 PY_IN_DBL (''a'' @ LF # ''// b # c'' @ DQ # ''; // d'')
      = emit (''a'' @ LF # ''// b # c'' @ [DQ])
          (python_loop (1 + length (''a'' @ LF # ''// b # c'') + 1) PY_CODE ''; // d'')
   \<and> sql_loop SQL_IN_DBL (''a'' @ LF # ''// b # c'' @ DQ # ''; // d'')
      = emit (''a'' @ LF # ''// b # c'' @ [DQ]) (sql_loop SQL_CODE ''; // d'')
   \<and> ruby_loop RB_IN_DBL (''a'' @ LF # ''// b # c'' @ DQ # ''; // d'')
      = emit (''a'' @ LF # ''// b # c'' @ [DQ]) (ruby_loop RB_CODE ''; // d'')
   \<and> strip_comments_c_like (DQ # ''a'' @ LF # ''// b # c'') True False
      = emit (DQ # ''a'' @ LF # ''// b # c'') no_more
   \<and> strip_comments_python (DQ # ''a'' @ LF # ''// b # c'')
      = emit (DQ # ''a'' @ LF # ''// b # c'') no_more
   \<and> strip_comments_sql (DQ # ''a'' @ LF # ''// b # c'')
      = emit (DQ # ''a'' @ LF # ''// b # c'') no_more
   \<and> ruby_loop RB_CODE (DQ # ''a'' @ LF # ''// b # c'')
      = emit (DQ # ''a'' @ LF # ''// b # c'') no_more"
proof -
  have q: "DQ = SQ \<or> DQ = DQ" by simp
  have pre: "lit_body DQ ''a''" by simp
  have tracked: "False \<longrightarrow> DQ = DQ" by simp
  have post: "lit_body DQ ''// b # c''" by simp
  have tail: "lit_open DQ ''// b # c''" by simp
  from newline_keeps_string_open [OF q pre tracked, where post = "''// b # c''" and h = True
      and b' = False and i = 1 and d = 0 and rest = "''; // d''"] pre post tail
  show ?thesis by simp
qed


subsection \<open>Scanning the cleaned text again\<close>

lemma skip_line_stops:
  "peek_is (drop (skip_line xs) xs) c \<Longrightarrow> c = LF \<or> c = CR"
  by (induction xs) (auto split: if_splits)

lemma c_like_peek_in_string:
  "st \<noteq> C_CODE \<Longrightarrow> peek_is (rtext (c_like_loop h b i st d xs)) c = peek_is xs c"
  by (cases xs; cases st) auto

lemma c_like_peek_code:
  assumes p: "peek_is (rtext (c_like_loop h b i C_CODE d xs)) c"
    and s: "\<not> peek_is xs CHR ''/''" and c: "c \<noteq> LF" "c \<noteq> CR"
  shows "peek_is xs c"
proof (cases xs)
  case Nil
  with p show ?thesis by simp
next
  case (Cons x r)
  show ?thesis
  proof (cases "h \<and> x = CHR ''#'' \<and> \<not> (i = 0 \<and> peek_is r CHR ''!'')")
    case True
    let ?ys = "drop (skip_line r) r"
    from True p Cons
    have out: "peek_is (rtext (c_like_loop h b (i + 1 + skip_line r) C_CODE d ?ys)) c"
      by simp
    show ?thesis
    proof (cases ?ys)
      case Nil
      with out show ?thesis by simp
    next
      case ys: (Cons y ys')
      with skip_line_stops [of r y] have "y = LF \<or> y = CR" by simp
      with out c ys show ?thesis by auto
    qed
  next
    case False
    with p s Cons show ?thesis by (auto split: if_splits)
  qed
qed

lemma c_like_idem:
  "(i = 0 \<longrightarrow> i' = 0) \<Longrightarrow>
   c_like_loop h b i' st 0 (rtext (c_like_loop h b i st d xs))
     = emit (rtext (c_like_loop h b i st d xs)) no_more"
proof (induction h b i st d xs arbitrary: i' rule: c_like_loop.induct)
  case (1 h b i st d)
  then show ?case by simp
next
  case (2 h b i d ch rest)
  then show ?case by simp
next
  case (3 h b i d ch rest)
  then show ?case by simp
next
  case (4 h b i d ch rest)
  then show ?case
    by (simp add: c_like_peek_in_string c_like_depth_zero [of _ _ _ _ "Suc 0"])
next
  case (5 h b i d ch rest)
  show ?case
  proof (cases "ch = SQ \<and> \<not> b")
    case True
    with "5.IH"(1) "5.prems" show ?thesis by simp
  next
    case n1: False
    show ?thesis
    proof (cases "ch = DQ")
      case True
      with n1 "5.IH"(2) "5.prems" show ?thesis by simp
    next
      case n2: False
      show ?thesis
      proof (cases "b \<and> ch = BT")
        case True
        with n1 n2 "5.IH"(3) "5.prems" show ?thesis by simp
      next
        case n3: False
        show ?thesis
        proof (cases "ch = CHR ''/'' \<and> peek_is rest CHR ''/''")
          case True
          with n1 n2 n3 "5.IH"(4) [of i'] show ?thesis by simp
        next
          case n4: False
          show ?thesis
          proof (cases "ch = CHR ''/'' \<and> peek_is rest CHR ''*''")
            case True
            with n1 n2 n3 n4 "5.IH"(5) [of i'] show ?thesis by simp
          next
            case n5: False
            show ?thesis
            proof (cases "h \<and> ch = CHR ''#'' \<and> \<not> (i = 0 \<and> peek_is rest CHR ''!'')")
              case True
              with n1 n2 n3 n4 n5 "5.IH"(6) [of i'] show ?thesis by simp
            next
              case n6: False
              let ?out = "rtext (c_like_loop h b (i + 1) C_CODE d rest)"
              have a: "\<not> peek_is ?out CHR ''/''" if "ch = CHR ''/''"
                using that n4 c_like_peek_code [of h b "i + 1" d rest "CHR ''/''"] by auto
              have b: "\<not> peek_is ?out CHR ''*''" if "ch = CHR ''/''"
                using that n4 n5 c_like_peek_code [of h b "i + 1" d rest "CHR ''*''"] by auto
              have c: "i' = 0 \<and> peek_is ?out CHR ''!''" if "h" "ch = CHR ''#''"
              proof -
                from that n6 have i: "i = 0" and r: "peek_is rest CHR ''!''" by auto
                from r obtain r' where "rest = CHR ''!'' # r'" by (cases rest) auto
                then have "peek_is ?out CHR ''!''" by simp
                with i "5.prems" show ?thesis by simp
              qed
              from n1 n2 n3 n4 n5 n6
              have one: "c_like_loop h b i C_CODE d (ch # rest)
                  = emit [ch] (c_like_loop h b (i + 1) C_CODE d rest)"
                by auto
              from n1 n2 n3 a b c
              have two: "c_like_loop h b i' C_CODE 0 (ch # ?out)
                  = emit [ch] (c_like_loop h b (i' + 1) C_CODE 0 ?out)"
                by auto
              from "5.IH"(7) [OF n1 n2 n3 n4 n5 n6, of "i' + 1"]
              have "c_like_loop h b (i' + 1) C_CODE 0 ?out = emit ?out no_more" by simp
              with one two show ?thesis by simp
            qed
          qed
        qed
      qed
    qed
  qed
qed

lemma peek_is_take: "peek_is ys c = (take 1 ys = [c])"
  by (cases ys) auto

lemma triple_at_Cons_iff: "triple_at q (ch # ys) = (ch = q \<and> take 2 ys = [q, q])"
  by (cases ys; cases "tl ys") (auto simp: triple_at_def)

lemma python_take1_in_string:
  "st \<noteq> PY_CODE \<Longrightarrow> take 1 (rtext (python_loop i st xs)) = take 1 xs"
  by (cases xs; cases st) (auto dest: triple_at_Cons)

lemma python_take2_tsq:
  "take 2 (rtext (python_loop i IN_TSQ xs)) = take 2 xs"
proof (cases xs)
  case Nil
  then show ?thesis by simp
next
  case (Cons x r)
  show ?thesis
  proof (cases "triple_at SQ (x # r)")
    case True
    then obtain r' where x: "x = SQ" and r: "r = SQ # SQ # r'"
      by (auto dest!: triple_at_Cons) metis
    with Cons show ?thesis by (simp add: triple_at_def)
  next
    case False
    have "take 2 (x # ys) = x # take 1 ys" for ys :: string
      by (simp add: numeral_2_eq_2)
    with False Cons python_take1_in_string [of IN_TSQ "i + 1" r] show ?thesis by simp
  qed
qed

lemma python_take2_tdq:
  "take 2 (rtext (python_loop i IN_TDQ xs)) = take 2 xs"
proof (cases xs)
  case Nil
  then show ?thesis by simp
next
  case (Cons x r)
  show ?thesis
  proof (cases "triple_at DQ (x # r)")
    case True
    then obtain r' where x: "x = DQ" and r: "r = DQ # DQ # r'"
      by (auto dest!: triple_at_Cons) metis
    with Cons show ?thesis by (simp add: triple_at_def)
  next
    case False
    have "take 2 (x # ys) = x # take 1 ys" for ys :: string
      by (simp add: numeral_2_eq_2)
    with False Cons python_take1_in_string [of IN_TDQ "i + 1" r] show ?thesis by simp
  qed
qed

lemma python_peek_code:
  assumes p: "peek_is (rtext (python_loop i PY_CODE xs)) c"
    and c: "c \<noteq> LF" "c \<noteq> CR"
  shows "peek_is xs c"
proof (cases xs)
  case Nil
  with p show ?thesis by simp
next
  case (Cons x r)
  show ?thesis
  proof (cases "x = CHR ''#'' \<and> \<not> (i = 0 \<and> peek_is r CHR ''!'')")
    case True
    let ?ys = "drop (skip_line r) r"
    from True p Cons
    have out: "peek_is (rtext (python_loop (i + 1 + skip_line r) PY_CODE ?ys)) c"
      by (simp add: triple_at_Cons_iff)
    show ?thesis
    proof (cases ?ys)
      case Nil
      with out show ?thesis by simp
    next
      case ys: (Cons y ys')
      with skip_line_stops [of r y] have "y = LF \<or> y = CR" by simp
      with out c ys show ?thesis by (auto simp: triple_at_Cons_iff)
    qed
  next
    case False
    with p Cons show ?thesis by (auto simp: triple_at_Cons_iff split: if_splits)
  qed
qed

lemma python_take2_sgl:
  assumes "take 2 (rtext (python_loop i PY_IN_SGL xs)) = [SQ, SQ]"
  shows "take 2 xs = [SQ, SQ]"
proof (cases xs)
  case Nil
  with assms show ?thesis by simp
next
  case (Cons x r)
  show ?thesis
  proof (cases "x = SQ")
    case True
    with assms Cons have "peek_is (rtext (python_loop (i + 1) PY_CODE r)) SQ"
      by (simp add: peek_is_take numeral_2_eq_2)
    then have "peek_is r SQ" by (rule python_peek_code) simp_all
    with True Cons show ?thesis by (cases r) (simp_all add: numeral_2_eq_2)
  next
    case False
    with assms Cons show ?thesis by (auto split: if_splits)
  qed
qed

lemma python_take2_dbl:
  assumes "take 2 (rtext (python_loop i PY_IN_DBL xs)) = [DQ, DQ]"
  shows "take 2 xs = [DQ, DQ]"
proof (cases xs)
  case Nil
  with assms show ?thesis by simp
next
  case (Cons x r)
  show ?thesis
  proof (cases "x = DQ")
    case True
    with assms Cons have "peek_is (rtext (python_loop (i + 1) PY_CODE r)) DQ"
      by (simp add: peek_is_take numeral_2_eq_2)
    then have "peek_is r DQ" by (rule python_peek_code) simp_all
    with True Cons show ?thesis by (cases r) (simp_all add: numeral_2_eq_2)
  next
    case False
    with assms Cons show ?thesis by (auto split: if_splits)
  qed
qed

lemma python_idem:
  "(i = 0 \<longrightarrow> i' = 0) \<Longrightarrow>
   python_loop i' st (rtext (python_loop i st xs)) = emit (rtext (python_loop i st xs)) no_more"
proof (induction i st xs arbitrary: i' rule: python_loop.induct)
  case (1 i st)
  then show ?case by simp
next
  case (2 i ch rest)
  then show ?case by simp
next
  case (3 i ch rest)
  then show ?case by simp
next
  case (4 i ch rest)
  then show ?case
    by (simp add: triple_at_Cons_iff python_take2_tsq)
next
  case (5 i ch rest)
  then show ?case
    by (simp add: triple_at_Cons_iff python_take2_tdq)
next
  case (6 i ch rest)
  show ?case
  proof (cases "triple_at SQ (ch # rest)")
    case True
    then have "ch = SQ" by (simp add: triple_at_Cons_iff)
    with True "6.IH"(1) [OF True, of "i' + 3"] show ?thesis
      by (simp add: triple_at_def)
  next
    case n1: False
    show ?thesis
    proof (cases "triple_at DQ (ch # rest)")
      case True
      then have "ch = DQ" by (simp add: triple_at_Cons_iff)
      with True n1 "6.IH"(2) [OF n1 True, of "i' + 3"] show ?thesis
        by (simp add: triple_at_def)
    next
      case n2: False
      show ?thesis
      proof (cases "ch = SQ")
        case True
        let ?out = "rtext (python_loop (i + 1) PY_IN_SGL rest)"
        from True n1 python_take2_sgl [of "i + 1" rest]
        have "\<not> triple_at SQ (ch # ?out)" by (auto simp: triple_at_Cons_iff)
        moreover from True have "\<not> triple_at DQ (ch # ?out)"
          by (simp add: triple_at_Cons_iff)
        ultimately show ?thesis
          using True n1 n2 "6.IH"(3) [OF n1 n2 True, of "i' + 1"] by simp
      next
        case n3: False
        show ?thesis
        proof (cases "ch = DQ")
          case True
          let ?out = "rtext (python_loop (i + 1) PY_IN_DBL rest)"
          from True n2 python_take2_dbl [of "i + 1" rest]
          have "\<not> triple_at DQ (ch # ?out)" by (auto simp: triple_at_Cons_iff)
          moreover from True have "\<not> triple_at SQ (ch # ?out)"
            by (simp add: triple_at_Cons_iff)
          ultimately show ?thesis
            using True n1 n2 n3 "6.IH"(4) [OF n1 n2 n3 True, of "i' + 1"] by simp
        next
          case n4: False
          show ?thesis
          proof (cases "ch = CHR ''#'' \<and> \<not> (i = 0 \<and> peek_is rest CHR ''!'')")
            case True
            with n1 n2 n3 n4 "6.IH"(5) [OF n1 n2 n3 n4 True, of i'] "6.prems"
            show ?thesis by simp
          next
            case n5: False
            let ?out = "rtext (python_loop (i + 1) PY_CODE rest)"
            from n3 n4 have t: "\<not> triple_at SQ (ch # ?out)" "\<not> triple_at DQ (ch # ?out)"
              by (simp_all add: triple_at_Cons_iff)
            have c: "i' = 0 \<and> peek_is ?out CHR ''!''" if "ch = CHR ''#''"
            proof -
              from that n5 have i: "i = 0" and r: "peek_is rest CHR ''!''" by auto
              from r obtain r' where "rest = CHR ''!'' # r'" by (cases rest) auto
              then have "peek_is ?out CHR ''!''" by (simp add: triple_at_Cons_iff)
              with i "6.prems" show ?thesis by simp
            qed
            from n1 n2 n3 n4 n5
            have one: "python_loop i PY_CODE (ch # rest)
                = emit [ch] (python_loop (i + 1) PY_CODE rest)"
              by auto
            from t n3 n4 c
            have two: "python_loop i' PY_CODE (ch # ?out)
                = emit [ch] (python_loop (i' + 1) PY_CODE ?out)"
              by auto
            from "6.IH"(6) [OF n1 n2 n3 n4 n5, of "i' + 1"]
            have "python_loop (i' + 1) PY_CODE ?out = emit ?out no_more" by simp
            with one two show ?thesis by simp
          qed
        qed
      qed
    qed
  qed
qed

lemma strip_c_like_idem:
  "strip_comments_c_like (rtext (strip_comments_c_like src h b)) h b
     = emit (rtext (strip_comments_c_like src h b)) no_more"
  unfolding strip_comments_c_like_def by (rule c_like_idem) simp

lemma strip_python_idem:
  "strip_comments_python (rtext (strip_comments_python src))
     = emit (rtext (strip_comments_python src)) no_more"
  unfolding strip_comments_python_def by (rule python_idem) simp

text \<open>
  The line-truncation scanner (INI, TOML, YAML).  The first scan leaves a text in which
  no line has a marker outside quotes: a kept line has none, and what is left of a cut
  line has none and ends outside quotes, so that it can be joined to the next line when
  its line end is not kept.  The second scan then finds no cut on any line.
\<close>

lemma linebreak_plain:
  "is_linebreak c \<Longrightarrow> c \<noteq> SQ"
  "is_linebreak c \<Longrightarrow> c \<noteq> DQ"
  "is_linebreak c \<Longrightarrow> c \<noteq> BSL"
  "is_linebreak c \<Longrightarrow> c \<noteq> CHR ''#''"
  "is_linebreak c \<Longrightarrow> c \<noteq> CHR '';''"
  by (auto simp: is_linebreak_def)

lemma is_linebreak_LF [simp]: "is_linebreak LF" and is_linebreak_CR [simp]: "is_linebreak CR"
  by (simp_all add: is_linebreak_def)

lemma find_cut_term:
  assumes "term = [] \<or> term = [CR, LF] \<or> (\<exists>X. term = [X] \<and> is_linebreak X)"
  shows "find_cut a i st term = None"
  using assms by (cases st) (auto simp: linebreak_plain)

lemma cfg_scan_term:
  assumes "term = [] \<or> term = [CR, LF] \<or> (\<exists>X. term = [X] \<and> is_linebreak X)"
    and "term = [] \<longrightarrow> R = []"
  shows "cfg_scan a st (term @ R) = cfg_scan a CFG_CODE R"
  using assms by (cases st) (auto simp: linebreak_plain)

lemma scan_line:
  assumes "\<forall>c\<in>set body. \<not> is_linebreak c"
    and "term = [] \<or> term = [CR, LF] \<or> (\<exists>X. term = [X] \<and> is_linebreak X)"
    and "term = [] \<longrightarrow> R = []"
  shows "cfg_scan a st (body @ term @ R)
     = (find_cut a i st (body @ term) = None \<and> cfg_scan a CFG_CODE R)"
  using assms(1)
proof (induction "length body" arbitrary: body i st rule: less_induct)
  case less
  note t = assms(2) and l = assms(3)
  show ?case
  proof (cases body)
    case Nil
    with find_cut_term [OF t, of a i st] cfg_scan_term [OF t l, of a st] show ?thesis by simp
  next
    case (Cons c cs)
    with less.prems have c: "\<not> is_linebreak c" and cs: "\<forall>c\<in>set cs. \<not> is_linebreak c"
      by simp_all
    have IH: "cfg_scan a s (cs @ term @ R)
        = (find_cut a j s (cs @ term) = None \<and> cfg_scan a CFG_CODE R)" for j s
      using less.hyps [of cs s j] cs Cons by simp
    show ?thesis
    proof (cases "c = BSL \<and> st \<noteq> CFG_CODE")
      case False
      with c Cons IH show ?thesis by (cases st) (auto simp: linebreak_plain)
    next
      case True
      show ?thesis
      proof (cases cs)
        case Nil
        from t l True c Cons Nil show ?thesis
          by (cases st) (auto simp: linebreak_plain)
      next
        case cs': (Cons y ys)
        with cs have y: "\<not> is_linebreak y" and ys: "\<forall>c\<in>set ys. \<not> is_linebreak c"
          by simp_all
        have "cfg_scan a s (ys @ term @ R)
            = (find_cut a j s (ys @ term) = None \<and> cfg_scan a CFG_CODE R)" for j s
          using less.hyps [of ys s j] ys Cons cs' by simp
        with True Cons cs' y show ?thesis by (cases st) (auto simp: linebreak_plain)
      qed
    qed
  qed
qed

lemma take_line_shape:
  "\<exists>body term. take_line xs = body @ term \<and> (\<forall>c\<in>set body. \<not> is_linebreak c)
     \<and> (term = [] \<or> term = [CR, LF] \<or> (\<exists>X. term = [X] \<and> is_linebreak X))
     \<and> (term = [] \<longrightarrow> drop_line xs = [])"
proof (induction xs rule: take_line.induct)
  case 1
  show ?case by simp
next
  case (2 c)
  show ?case
  proof (cases "is_linebreak c")
    case True
    then have "take_line [c] = [] @ [c] \<and> (\<forall>c\<in>set []. \<not> is_linebreak c)
        \<and> ([c] = [] \<or> [c] = [CR, LF] \<or> (\<exists>X. [c] = [X] \<and> is_linebreak X))
        \<and> ([c] = [] \<longrightarrow> drop_line [c] = [])"
      by simp
    then show ?thesis by blast
  next
    case False
    then have "take_line [c] = [c] @ [] \<and> (\<forall>x\<in>set [c]. \<not> is_linebreak x)
        \<and> ([] = [] \<or> [] = [CR, LF] \<or> (\<exists>X. [] = [X] \<and> is_linebreak X))
        \<and> ([] = [] \<longrightarrow> drop_line [c] = [])"
      by simp
    then show ?thesis by blast
  qed
next
  case (3 c d cs)
  show ?case
  proof (cases "c = CR \<and> d = LF")
    case True
    then have "take_line (c # d # cs) = [] @ [CR, LF]" by simp
    then show ?thesis by fastforce
  next
    case n: False
    show ?thesis
    proof (cases "is_linebreak c")
      case True
      with n have "take_line (c # d # cs) = [] @ [c]" by simp
      with True show ?thesis by fastforce
    next
      case False
      from "3.IH" [OF n False] obtain body "term" where
        b: "take_line (d # cs) = body @ term" "\<forall>c\<in>set body. \<not> is_linebreak c"
          "term = [] \<or> term = [CR, LF] \<or> (\<exists>X. term = [X] \<and> is_linebreak X)"
          "term = [] \<longrightarrow> drop_line (d # cs) = []"
        by blast
      from n False b have "take_line (c # d # cs) = (c # body) @ term
          \<and> (\<forall>x\<in>set (c # body). \<not> is_linebreak x)
          \<and> (term = [] \<or> term = [CR, LF] \<or> (\<exists>X. term = [X] \<and> is_linebreak X))
          \<and> (term = [] \<longrightarrow> drop_line (c # d # cs) = [])"
        by auto
      then show ?thesis by blast
    qed
  qed
qed

lemma splitlines_from_eq:
  "splitlines_from cur xs =
     (if xs = [] then (if cur = [] then [] else [cur])
      else (cur @ take_line xs) # splitlines_from [] (drop_line xs))"
  by (induction cur xs rule: splitlines_from.induct) auto

lemma splitlines_Cons:
  "xs \<noteq> [] \<Longrightarrow> splitlines xs = take_line xs # splitlines (drop_line xs)"
  unfolding splitlines_def by (subst splitlines_from_eq) simp

lemma splitlines_Nil [simp]: "splitlines [] = []"
  by (simp add: splitlines_def)

lemma length_drop_line: "xs \<noteq> [] \<Longrightarrow> length (drop_line xs) < length xs"
  by (induction xs rule: drop_line.induct) auto

lemma find_cut_shift:
  "find_cut a (i + j) st xs = map_option (\<lambda>k. k + j) (find_cut a i st xs)"
proof (induction a i st xs rule: find_cut.induct)
  case (1 a i st)
  then show ?case by simp
next
  case (2 a i ch rest)
  then show ?case by (simp add: add.assoc add.commute [of j])
next
  case (3 a i ch rest)
  then show ?case by (simp add: add.assoc add.commute [of j])
next
  case (4 a i ch rest)
  then show ?case by (simp add: add.assoc add.commute [of j])
qed

lemma find_cut_from:
  "find_cut a j st xs = map_option (\<lambda>k. k + j) (find_cut a 0 st xs)"
  using find_cut_shift [of a 0 j st xs] by simp

lemma find_cut_Some:
  "find_cut a 0 st xs = Some m \<Longrightarrow>
   m < length xs \<and> cfg_clean a st (take m xs)
   \<and> (xs ! m = CHR ''#'' \<or> xs ! m = CHR '';'')"
proof (induction "length xs" arbitrary: xs st m rule: less_induct)
  case less
  show ?case
  proof (cases xs)
    case Nil
    with less.prems show ?thesis by simp
  next
    case (Cons ch rest)
    have IH: "find_cut a 0 s ys = Some n \<Longrightarrow> length ys \<le> length rest \<Longrightarrow>
        n < length ys \<and> cfg_clean a s (take n ys)
        \<and> (ys ! n = CHR ''#'' \<or> ys ! n = CHR '';'')" for s ys n
      using less.hyps [of ys s n] Cons by simp
    show ?thesis
    proof (cases "ch = BSL \<and> rest \<noteq> [] \<and> st \<noteq> CFG_CODE")
      case True
      then obtain y ys where rest: "rest = y # ys" by (cases rest) auto
      from True less.prems Cons rest
      have "find_cut a 2 st ys = Some m" by (cases st) (simp_all add: numeral_2_eq_2)
      then obtain n where n: "find_cut a 0 st ys = Some n" and m: "m = n + 2"
        by (subst (asm) find_cut_from) auto
      from IH [OF n] rest have "n < length ys \<and> cfg_clean a st (take n ys)
          \<and> (ys ! n = CHR ''#'' \<or> ys ! n = CHR '';'')"
        by simp
      with True Cons rest m show ?thesis by (cases st) simp_all
    next
      case False
      show ?thesis
      proof (cases "st = CFG_CODE \<and> (ch = CHR ''#'' \<or> (a \<and> ch = CHR '';''))")
        case True
        with less.prems Cons have "m = 0" by (auto split: if_splits)
        with True Cons show ?thesis by auto
      next
        case n: False
        from False n less.prems Cons
        obtain s where s: "find_cut a 1 s rest = Some m"
          and c: "\<And>ys. cfg_clean a st (ch # ys) = cfg_clean a s ys"
          by (cases st) (auto split: if_splits)
        from s obtain n where n: "find_cut a 0 s rest = Some n" and m: "m = n + 1"
          by (subst (asm) find_cut_from) auto
        from IH [OF n] have "n < length rest \<and> cfg_clean a s (take n rest)
            \<and> (rest ! n = CHR ''#'' \<or> rest ! n = CHR '';'')"
          by simp
        with Cons m c show ?thesis by simp
      qed
    qed
  qed
qed

lemma isspace_plain:
  "py_isspace c \<Longrightarrow> c \<noteq> SQ"
  "py_isspace c \<Longrightarrow> c \<noteq> DQ"
  "py_isspace c \<Longrightarrow> c \<noteq> BSL"
  "py_isspace c \<Longrightarrow> c \<noteq> CHR ''#''"
  "py_isspace c \<Longrightarrow> c \<noteq> CHR '';''"
  by (auto simp: py_isspace_def)

lemma cfg_clean_butlast:
  "cfg_clean a st (ys @ [w]) \<Longrightarrow> py_isspace w \<Longrightarrow> cfg_clean a st ys"
proof (induction a st ys rule: cfg_clean.induct)
  case (1 a st)
  then show ?case by (cases st) (simp_all add: isspace_plain)
next
  case (2 a ch rest)
  then show ?case by (cases rest) (auto simp: isspace_plain split: if_splits)
next
  case (3 a ch rest)
  then show ?case by (cases rest) (auto simp: isspace_plain split: if_splits)
next
  case (4 a ch rest)
  then show ?case by (auto split: if_splits)
qed

lemma rstrip_snoc: "rstrip (ys @ [w]) = (if py_isspace w then rstrip ys else ys @ [w])"
  by (simp add: rstrip_def)

lemma cfg_clean_rstrip: "cfg_clean a st ys \<Longrightarrow> cfg_clean a st (rstrip ys)"
proof (induction ys rule: rev_induct)
  case Nil
  then show ?case by (simp add: rstrip_def)
next
  case (snoc w ys)
  then show ?case by (auto simp: rstrip_snoc dest: cfg_clean_butlast)
qed

lemma set_rstrip: "set (rstrip ys) \<subseteq> set ys"
  by (induction ys rule: rev_induct) (auto simp: rstrip_snoc rstrip_def)

lemma cfg_clean_scan:
  "cfg_clean a st P \<Longrightarrow> \<forall>c\<in>set P. \<not> is_linebreak c
   \<Longrightarrow> cfg_scan a st (P @ R) = cfg_scan a CFG_CODE R"
proof (induction a st P rule: cfg_clean.induct)
  case (1 a st)
  then show ?case by simp
next
  case (2 a ch rest)
  show ?case
  proof (cases "ch = BSL \<and> rest \<noteq> []")
    case True
    then obtain y ys where r: "rest = y # ys" by (cases rest) auto
    with True 2 show ?thesis by simp
  next
    case False
    show ?thesis
    proof (cases "ch = BSL")
      case True
      with False 2 show ?thesis by simp
    next
      case b: False
      with 2 show ?thesis by (simp split: if_splits)
    qed
  qed
next
  case (3 a ch rest)
  show ?case
  proof (cases "ch = BSL \<and> rest \<noteq> []")
    case True
    then obtain y ys where r: "rest = y # ys" by (cases rest) auto
    with True 3 show ?thesis by simp
  next
    case False
    show ?thesis
    proof (cases "ch = BSL")
      case True
      with False 3 show ?thesis by simp
    next
      case b: False
      with 3 show ?thesis by (simp split: if_splits)
    qed
  qed
next
  case (4 a ch rest)
  then show ?case by (auto split: if_splits)
qed

lemma take_drop_line: "take_line xs @ drop_line xs = xs"
  by (induction xs rule: take_line.induct) auto

lemma take_line_Nil: "xs \<noteq> [] \<Longrightarrow> take_line xs \<noteq> []"
  by (induction xs rule: take_line.induct) auto

lemma hash_lines_scan:
  "cfg_scan a CFG_CODE (rtext (hash_lines a (splitlines src)))"
proof (induction "length src" arbitrary: src rule: less_induct)
  case less
  show ?case
  proof (cases "src = []")
    case True
    then show ?thesis by (simp add: no_more_def)
  next
    case False
    let ?L = "take_line src"
    let ?R = "rtext (hash_lines a (splitlines (drop_line src)))"
    from less.hyps [of "drop_line src"] length_drop_line [OF False]
    have IH: "cfg_scan a CFG_CODE ?R" by simp
    from take_line_shape [of src] obtain body "term" where
      L: "?L = body @ term" and b: "\<forall>c\<in>set body. \<not> is_linebreak c"
      and t: "term = [] \<or> term = [CR, LF] \<or> (\<exists>X. term = [X] \<and> is_linebreak X)"
      and d: "term = [] \<longrightarrow> drop_line src = []"
      by blast
    from d have r: "term = [] \<longrightarrow> ?R = []" by (auto simp: no_more_def)
    show ?thesis
    proof (cases "find_cut a 0 CFG_CODE ?L")
      case None
      with scan_line [OF b t r, of a CFG_CODE 0] IH L
      have "cfg_scan a CFG_CODE (?L @ ?R)" by simp
      with None False show ?thesis by (simp add: splitlines_Cons)
    next
      case (Some k)
      from find_cut_Some [OF Some] have k: "k < length ?L"
        and c: "cfg_clean a CFG_CODE (take k ?L)"
        and m: "?L ! k = CHR ''#'' \<or> ?L ! k = CHR '';''"
        by simp_all
      have kb: "k < length body"
      proof (rule ccontr)
        assume "\<not> k < length body"
        with k L have "?L ! k \<in> set term"
          by (simp add: nth_append)
        with t have "is_linebreak (?L ! k)" by auto
        with m show False by (auto simp: is_linebreak_def)
      qed
      with L have tk: "take k ?L = take k body" by simp
      let ?P = "rstrip (take k ?L)"
      from c have cP: "cfg_clean a CFG_CODE ?P" by (rule cfg_clean_rstrip)
      from b tk set_rstrip [of "take k ?L"] have bP: "\<forall>c\<in>set ?P. \<not> is_linebreak c"
        by (auto dest: in_set_takeD)
      have nl: "cfg_scan a CFG_CODE ((if ends_with_newline ?L then [LF] else []) @ ?R)"
        using IH by simp
      from cfg_clean_scan [OF cP bP, of "(if ends_with_newline ?L then [LF] else []) @ ?R"] nl
      have "cfg_scan a CFG_CODE (?P @ (if ends_with_newline ?L then [LF] else []) @ ?R)"
        by simp
      with Some False show ?thesis by (simp add: splitlines_Cons)
    qed
  qed
qed

lemma scan_no_cut:
  "cfg_scan a CFG_CODE xs \<Longrightarrow> \<forall>l\<in>set (splitlines xs). find_cut a 0 CFG_CODE l = None"
proof (induction "length xs" arbitrary: xs rule: less_induct)
  case less
  show ?case
  proof (cases "xs = []")
    case True
    then show ?thesis by simp
  next
    case False
    from take_line_shape [of xs] obtain body "term" where
      L: "take_line xs = body @ term" and b: "\<forall>c\<in>set body. \<not> is_linebreak c"
      and t: "term = [] \<or> term = [CR, LF] \<or> (\<exists>X. term = [X] \<and> is_linebreak X)"
      and d: "term = [] \<longrightarrow> drop_line xs = []"
      by blast
    from less.prems take_drop_line [of xs] L
    have "cfg_scan a CFG_CODE (body @ term @ drop_line xs)" by simp
    with scan_line [OF b t d, of a CFG_CODE 0] L
    have n: "find_cut a 0 CFG_CODE (take_line xs) = None"
      and s: "cfg_scan a CFG_CODE (drop_line xs)"
      by simp_all
    from less.hyps [OF length_drop_line [OF False] s] n False
    show ?thesis by (simp add: splitlines_Cons)
  qed
qed

lemma hash_lines_no_cut:
  "\<forall>l\<in>set ls. find_cut a 0 CFG_CODE l = None \<Longrightarrow> hash_lines a ls = emit (concat ls) no_more"
  by (induction ls) simp_all

lemma strip_hash_idem:
  "strip_comments_hash_and_semicolon (rtext (strip_comments_hash_and_semicolon src a)) a
     = emit (rtext (strip_comments_hash_and_semicolon src a)) no_more"
  unfolding strip_comments_hash_and_semicolon_def
  using hash_lines_no_cut [OF scan_no_cut [OF hash_lines_scan [of a src]]]
  by (simp add: splitlines_def concat_splitlines_from)

text \<open>
  Claim C5 says that for every profile a second scan of the cleaned text returns it
  unchanged and finds no comment.  Removing a comment can bring two characters together
  that form a new comment marker, or uncover a marker that was not at a place where the
  pattern looks: under SQL the two \<^verbatim>\<open>-\<close> around a block comment become \<^verbatim>\<open>--\<close>; under
  HTML the pieces around a removed comment form a new comment; under Ruby a \<^verbatim>\<open>=begin\<close>
  that followed \<^verbatim>\<open>=end\<close> on its line becomes the start of a line.  In each of the three pairs
  below the second scan of the text returned by the first finds a comment.
\<close>

theorem scan_not_idempotent_counterexample:
  "strip_comments ''-/**/-'' ''sql''
     = \<lparr>rtext = ''--'', comments_found = 1, comments_removed_chars = 4\<rparr>
   \<and> strip_comments ''--'' ''sql''
     = \<lparr>rtext = [], comments_found = 1, comments_removed_chars = 2\<rparr>
   \<and> strip_comments ''<!<!---->-- x -->'' ''html''
     = \<lparr>rtext = ''<!-- x -->'', comments_found = 1, comments_removed_chars = 7\<rparr>
   \<and> strip_comments ''<!-- x -->'' ''html''
     = \<lparr>rtext = [], comments_found = 1, comments_removed_chars = 10\<rparr>
   \<and> strip_comments (''=begin'' @ [LF] @ ''=end=begin'' @ [LF] @ ''=end'') ''ruby''
     = \<lparr>rtext = ''=begin'' @ [LF] @ ''=end'', comments_found = 1,
        comments_removed_chars = 11\<rparr>
   \<and> strip_comments (''=begin'' @ [LF] @ ''=end'') ''ruby''
     = \<lparr>rtext = [], comments_found = 1, comments_removed_chars = 11\<rparr>"
  by code_simp

lemma if_cases_fun:
  "(Q \<Longrightarrow> P (\<lambda>s. x s)) \<Longrightarrow> (\<not> Q \<Longrightarrow> P (\<lambda>s. y s))
   \<Longrightarrow> P (\<lambda>s. if Q then x s else y s)"
  by (cases Q) simp_all

lemma strip_comments_scanner_cases:
  assumes lang: "lower lang \<notin> {''sql'', ''html'', ''xml'', ''ruby''}"
    and c: "\<And>h b. P (\<lambda>s. strip_comments_c_like s h b)"
    and p: "P (\<lambda>s. strip_comments_python s)"
    and l: "\<And>a. P (\<lambda>s. strip_comments_hash_and_semicolon s a)"
  shows "P (\<lambda>s. strip_comments s lang)"
  unfolding strip_comments_def Let_def
  apply (rule if_cases_fun [where P = P])
   apply (rule c)
  apply (rule if_cases_fun [where P = P])
   apply (rule c)
  apply (rule if_cases_fun [where P = P])
   apply (rule p)
  apply (rule if_cases_fun [where P = P])
   apply (use lang in simp)
  apply (rule if_cases_fun [where P = P])
   apply (use lang in simp)
  apply (rule if_cases_fun [where P = P])
   apply (use lang in simp)
  apply (rule if_cases_fun [where P = P])
   apply (rule c)
  apply (rule if_cases_fun [where P = P])
   apply (rule l)
  apply (rule if_cases_fun [where P = P])
   apply (rule l)
  apply (rule c)
  done

text \<open>
  Claim C5 as amended: for every language identifier other than SQL, HTML, XML and Ruby,
  that is, for every identifier that the dispatcher sends to the C-like scanner (C, C++,
  C#, Java, CSS, Rust, Go, JSONC, PHP, JS, TS, Bash and every unknown identifier), to the
  Python scanner or to the line-truncation scanner (YAML, TOML, INI), a second scan of the
  cleaned text returns it unchanged, with no comment found and no character removed.  For
  SQL, HTML/XML and Ruby the second scan can find a comment.
\<close>

theorem scan_idempotent_scanners:
  assumes "lower lang \<notin> {''sql'', ''html'', ''xml'', ''ruby''}"
  shows "strip_comments (rtext (strip_comments src lang)) lang
     = emit (rtext (strip_comments src lang)) no_more"
  using assms
  by (rule strip_comments_scanner_cases
        [where P = "\<lambda>f. f (rtext (f src)) = emit (rtext (f src)) no_more"])
     (simp_all add: strip_c_like_idem strip_python_idem strip_hash_idem)

theorem scan_idempotent_scanners_witness:
  "lower ''INI'' \<notin> {''sql'', ''html'', ''xml'', ''ruby''}
   \<and> strip_comments (rtext (strip_comments ''a = 1 ; b'' ''INI'')) ''INI''
     = emit (rtext (strip_comments ''a = 1 ; b'' ''INI'')) no_more"
proof -
  have h: "lower ''INI'' \<notin> {''sql'', ''html'', ''xml'', ''ruby''}"
    by code_simp
  from scan_idempotent_scanners [OF h, of "''a = 1 ; b''"] h show ?thesis by blast
qed


subsection \<open>Literals of every tracked quote kind\<close>



























subsection \<open>Hash comments under the Bash profile\<close>

lemma skip_line_line:
  "LF \<notin> set line \<Longrightarrow> CR \<notin> set line \<Longrightarrow> t = LF \<or> t = CR
   \<Longrightarrow> skip_line (line @ t # rest) = length line"
  by (induction line) auto

lemma skip_line_end:
  "LF \<notin> set line \<Longrightarrow> CR \<notin> set line \<Longrightarrow> skip_line line = length line"
  by (induction line) auto

text \<open>The scan under the Bash profile starts the loop at offset 0, in code, with the hash
  switched on and the backtick switched off.\<close>

lemma strip_comments_bash:
  "strip_comments src ''bash'' = c_like_loop True False 0 C_CODE 0 src"
  by (simp add: strip_comments_def strip_comments_c_like_def lower_def lower_char_def Let_def)

text \<open>
  Claim C6 says that under the Bash profile no quote kinds are tracked and only \<^verbatim>\<open>#\<close> line
  comments are removed.  The dispatcher sends \<^verbatim>\<open>bash\<close> to the C-like scanner with the hash
  switched on, which tracks single and double quotes: the \<^verbatim>\<open>#\<close> inside the double-quoted
  string below does not start a comment.
\<close>

theorem bash_quotes_tracked_counterexample:
  "strip_comments (''echo '' @ [DQ] @ ''a # b'' @ [DQ]) ''bash''
     = \<lparr>rtext = ''echo '' @ [DQ] @ ''a # b'' @ [DQ], comments_found = 0,
        comments_removed_chars = 0\<rparr>"
  by code_simp

text \<open>
  Claim C6 as amended: under the Bash profile a \<^verbatim>\<open>#\<close> met in code, other than the \<^verbatim>\<open>#\<close> of
  \<^verbatim>\<open>#!\<close> at offset 0, starts a line comment: it is removed up to the line terminator, \<^verbatim>\<open>\n\<close>
  or \<^verbatim>\<open>\r\<close>, which stays, or up to the end of the input, and counted once.  A \<^verbatim>\<open>#!\<close> at
  offset 0 is kept.  Single- and double-quoted strings are tracked, so a \<^verbatim>\<open>#\<close> inside a
  well-formed literal is kept and not counted.  Nothing is said here about \<^verbatim>\<open>//\<close> and
  \<^verbatim>\<open>/* */\<close>.  In the statement, \<open>c_like_loop True False i C_CODE d xs\<close> is the scan, under
  this profile, of the part \<open>xs\<close> of the input that starts at offset \<open>i\<close>, in code.
\<close>

theorem bash_hash_comments:
  "(LF \<notin> set line \<and> CR \<notin> set line \<and> (0 < i \<or> \<not> peek_is line CHR ''!'') \<longrightarrow>
      (t = LF \<or> t = CR \<longrightarrow>
        c_like_loop True False i C_CODE d (CHR ''#'' # line @ t # rest)
          = counted (1 + length line)
              (emit [t] (c_like_loop True False (i + length line + 2) C_CODE d rest)))
      \<and> c_like_loop True False i C_CODE d (CHR ''#'' # line)
        = counted (1 + length line) no_more)
   \<and> c_like_loop True False 0 C_CODE d (CHR ''#'' # CHR ''!'' # rest)
      = emit ''#!'' (c_like_loop True False 2 C_CODE d rest)
   \<and> (lit_body SQ body \<longrightarrow>
      c_like_loop True False i C_CODE d (SQ # body @ SQ # rest)
        = emit (SQ # body @ [SQ]) (c_like_loop True False (i + length body + 2) C_CODE d rest))
   \<and> (lit_body DQ body \<longrightarrow>
      c_like_loop True False i C_CODE d (DQ # body @ DQ # rest)
        = emit (DQ # body @ [DQ]) (c_like_loop True False (i + length body + 2) C_CODE d rest))
   \<and> strip_comments (''#!/bin/bash'' @ [LF] @ ''# real comment'' @ [CR, LF] @ ''x #'') ''bash''
      = \<lparr>rtext = ''#!/bin/bash'' @ [LF, CR, LF] @ ''x '', comments_found = 2,
         comments_removed_chars = 15\<rparr>"
proof (intro conjI impI)
  assume h: "LF \<notin> set line \<and> CR \<notin> set line \<and> (0 < i \<or> \<not> peek_is line CHR ''!'')"
  from h show "c_like_loop True False i C_CODE d (CHR ''#'' # line)
      = counted (1 + length line) no_more"
    by (auto simp: skip_line_end)
  assume t: "t = LF \<or> t = CR"
  from h t have n: "\<not> (i = 0 \<and> peek_is (line @ t # rest) CHR ''!'')"
    by (cases line) auto
  from h t have s: "skip_line (line @ t # rest) = length line"
    by (intro skip_line_line) simp_all
  from t have "c_like_loop True False (i + length line + 1) C_CODE d (t # rest)
      = emit [t] (c_like_loop True False (i + length line + 2) C_CODE d rest)"
    by auto
  with n s show "c_like_loop True False i C_CODE d (CHR ''#'' # line @ t # rest)
      = counted (1 + length line)
          (emit [t] (c_like_loop True False (i + length line + 2) C_CODE d rest))"
    by (simp add: ac_simps)
next
  show "c_like_loop True False 0 C_CODE d (CHR ''#'' # CHR ''!'' # rest)
      = emit ''#!'' (c_like_loop True False 2 C_CODE d rest)"
    by (simp add: numeral_2_eq_2)
next
  assume l: "lit_body SQ body"
  show "c_like_loop True False i C_CODE d (SQ # body @ SQ # rest)
      = emit (SQ # body @ [SQ]) (c_like_loop True False (i + length body + 2) C_CODE d rest)"
    using c_like_sgl_closed [OF l, of True False "i + 1" d rest] by simp
next
  assume l: "lit_body DQ body"
  show "c_like_loop True False i C_CODE d (DQ # body @ DQ # rest)
      = emit (DQ # body @ [DQ]) (c_like_loop True False (i + length body + 2) C_CODE d rest)"
    using c_like_dbl_closed [OF l, of True False "i + 1" d rest] by simp
next
  show "strip_comments (''#!/bin/bash'' @ [LF] @ ''# real comment'' @ [CR, LF] @ ''x #'') ''bash''
      = \<lparr>rtext = ''#!/bin/bash'' @ [LF, CR, LF] @ ''x '', comments_found = 2,
         comments_removed_chars = 15\<rparr>"
    by code_simp
qed

theorem bash_hash_comments_witness:
  "LF \<notin> set '' x'' \<and> CR \<notin> set '' x'' \<and> (0 < (5::nat) \<or> \<not> peek_is '' x'' CHR ''!'')
   \<and> (CR = LF \<or> CR = CR)
   \<and> lit_body SQ ''a#b'' \<and> lit_body DQ ''a#b''
   \<and> c_like_loop True False 5 C_CODE 0 (CHR ''#'' # '' x'' @ CR # ''y'')
      = counted (1 + length '' x'')
          (emit [CR] (c_like_loop True False (5 + length '' x'' + 2) C_CODE 0 ''y''))
   \<and> c_like_loop True False 5 C_CODE 0 (CHR ''#'' # '' x'') = counted (1 + length '' x'') no_more
   \<and> c_like_loop True False 0 C_CODE 0 (CHR ''#'' # CHR ''!'' # ''y'')
      = emit ''#!'' (c_like_loop True False 2 C_CODE 0 ''y'')
   \<and> c_like_loop True False 5 C_CODE 0 (SQ # ''a#b'' @ SQ # ''y'')
      = emit (SQ # ''a#b'' @ [SQ]) (c_like_loop True False (5 + length ''a#b'' + 2) C_CODE 0 ''y'')
   \<and> c_like_loop True False 5 C_CODE 0 (DQ # ''a#b'' @ DQ # ''y'')
      = emit (DQ # ''a#b'' @ [DQ]) (c_like_loop True False (5 + length ''a#b'' + 2) C_CODE 0 ''y'')
   \<and> strip_comments (''#!/bin/bash'' @ [LF] @ ''# real comment'' @ [CR, LF] @ ''x #'') ''bash''
      = \<lparr>rtext = ''#!/bin/bash'' @ [LF, CR, LF] @ ''x '', comments_found = 2,
         comments_removed_chars = 15\<rparr>"
proof -
  have a: "LF \<notin> set '' x'' \<and> CR \<notin> set '' x'' \<and> (0 < (5::nat) \<or> \<not> peek_is '' x'' CHR ''!'')"
    by simp
  have t: "CR = LF \<or> CR = CR" by simp
  have b: "lit_body SQ ''a#b''" by simp
  have c: "lit_body DQ ''a#b''" by simp
  from bash_hash_comments [where line = "'' x''" and i = 5 and d = 0 and t = CR
      and rest = "''y''" and body = "''a#b''"] a t b c
  show ?thesis by blast
qed

end
